theory Spec2Isabelle
  imports Main "HOL-Library.Multiset"
begin

section \<open>The 8-puzzle model (class Puzzle)\<close>

text \<open>
  A state is the Python tuple of tile values, modelled as a list of (unbounded) integers.
  Reading a tuple out of range raises IndexError and \<open>tuple.index\<close> of an absent value
  raises ValueError; both are values of the error type.
\<close>

datatype py_error = ValueError | IndexError

type_synonym state = "int list"

definition goal_state :: state where
  "goal_state = [1, 2, 3, 4, 5, 6, 7, 8, 0]"

definition rows :: nat where
  "rows = 3"

definition cols :: nat where
  "cols = 3"

text \<open>\<open>tuple.index(v)\<close>: the first position holding \<open>v\<close>, ValueError when there is none.\<close>

fun tuple_index :: "int list \<Rightarrow> int \<Rightarrow> py_error + nat" where
  "tuple_index [] v = Inl ValueError"
| "tuple_index (x # xs) v =
     (if x = v then Inr 0
      else case tuple_index xs v of Inl e \<Rightarrow> Inl e | Inr i \<Rightarrow> Inr (Suc i))"

definition find_blank :: "state \<Rightarrow> py_error + (nat \<times> nat)" where
  "find_blank st =
     (case tuple_index st 0 of
        Inl e \<Rightarrow> Inl e
      | Inr blank_index \<Rightarrow> Inr (blank_index div cols, blank_index mod cols))"

definition directions :: "(int \<times> int \<times> string) list" where
  "directions = [(-1, 0, ''Up''), (1, 0, ''Down''), (0, -1, ''Left''), (0, 1, ''Right'')]"

text \<open>
  The body of the loop over the directions in \<open>get_possible_moves\<close>. The simultaneous
  assignment reads both cells first (IndexError when one is outside the tuple) and then
  writes them swapped.
\<close>

fun moves_from :: "state \<Rightarrow> nat \<Rightarrow> nat \<Rightarrow> (int \<times> int \<times> string) list
    \<Rightarrow> py_error + (state \<times> string) list" where
  "moves_from st blank_row blank_col [] = Inr []"
| "moves_from st blank_row blank_col ((dr, dc, description) # ds) =
     (let new_row = int blank_row + dr; new_col = int blank_col + dc in
      if 0 \<le> new_row \<and> new_row < int rows \<and> 0 \<le> new_col \<and> new_col < int cols then
        (let blank_idx = blank_row * cols + blank_col;
             new_tile_idx = nat new_row * cols + nat new_col in
         if blank_idx < length st \<and> new_tile_idx < length st then
           (case moves_from st blank_row blank_col ds of
              Inl e \<Rightarrow> Inl e
            | Inr rest \<Rightarrow>
                Inr ((st[blank_idx := st ! new_tile_idx, new_tile_idx := st ! blank_idx],
                      description) # rest))
         else Inl IndexError)
      else moves_from st blank_row blank_col ds)"

definition get_possible_moves :: "state \<Rightarrow> py_error + (state \<times> string) list" where
  "get_possible_moves st =
     (case find_blank st of
        Inl e \<Rightarrow> Inl e
      | Inr (blank_row, blank_col) \<Rightarrow> moves_from st blank_row blank_col directions)"

definition is_goal :: "state \<Rightarrow> bool" where
  "is_goal st \<longleftrightarrow> st = goal_state"

text \<open>
  \<open>is_solvable\<close>: the two nested loops over \<open>range(n)\<close> and \<open>range(i + 1, n)\<close> are folds
  over the index ranges, with the counter as the accumulator.
\<close>

definition count_inversions :: "int list \<Rightarrow> nat" where
  "count_inversions tiles =
     (let n = length tiles in
      fold (\<lambda>i inversions.
              fold (\<lambda>j inversions. if tiles ! i > tiles ! j then inversions + 1 else inversions)
                   [i + 1 ..< n] inversions)
           [0 ..< n] 0)"

definition is_solvable :: "state \<Rightarrow> bool" where
  "is_solvable st =
     (let tiles = filter (\<lambda>tile. tile \<noteq> 0) st in
      count_inversions tiles mod 2 = 0)"

section \<open>Search tree nodes (class Node)\<close>

text \<open>
  A node refers to its parent node; the root has none. The parent reference is only ever
  read, so the referenced node is held by value.
\<close>

datatype node = Node (state: state) (parent: "node option") (action: "string option") (cost: nat)

type_synonym path = "(state \<times> string option) list"

text \<open>
  \<open>get_path\<close>: the loop walks the parent references and collects (state, action) pairs,
  the root is added with the label "Initial State", and the list is reversed.
\<close>

fun path_to_root :: "node \<Rightarrow> path" where
  "path_to_root (Node st None act c) = [(st, Some ''Initial State'')]"
| "path_to_root (Node st (Some p) act c) = (st, act) # path_to_root p"

definition get_path :: "node \<Rightarrow> path" where
  "get_path n = rev (path_to_root n)"

section \<open>The search algorithms (class Solver)\<close>

text \<open>
  Every entry point returns the triple (path or None, nodes expanded, peak frontier size).
  The search loops may in principle run forever, so they are partial functions into
  \<open>option\<close>; an exception raised by the puzzle model ends the call with \<open>Inl\<close>.
\<close>

type_synonym result = "path option \<times> nat \<times> nat"

subsection \<open>Breadth-first search\<close>

text \<open>The \<open>for\<close> loop over the successors: unseen states are marked visited and enqueued.\<close>

fun bfs_expand :: "node \<Rightarrow> (state \<times> string) list \<Rightarrow> node list \<times> state set
    \<Rightarrow> node list \<times> state set" where
  "bfs_expand current_node [] (queue, visited) = (queue, visited)"
| "bfs_expand current_node ((new_state, act) # ms) (queue, visited) =
     (if new_state \<notin> visited then
        bfs_expand current_node ms
          (queue @ [Node new_state (Some current_node) (Some act) (cost current_node + 1)],
           insert new_state visited)
      else bfs_expand current_node ms (queue, visited))"

partial_function (option) bfs_loop :: "node list \<Rightarrow> state set \<Rightarrow> nat \<Rightarrow> nat
    \<Rightarrow> (py_error + result) option" where
  "bfs_loop queue visited nodes_expanded max_queue_size =
     (case queue of
        [] \<Rightarrow> Some (Inr (None, nodes_expanded, max_queue_size))
      | current_node # rest \<Rightarrow>
          (let max_queue_size' = max max_queue_size (length queue);
               nodes_expanded' = nodes_expanded + 1 in
           if is_goal (state current_node) then
             Some (Inr (Some (get_path current_node), nodes_expanded', max_queue_size'))
           else
             (case get_possible_moves (state current_node) of
                Inl e \<Rightarrow> Some (Inl e)
              | Inr ms \<Rightarrow>
                  (case bfs_expand current_node ms (rest, visited) of
                     (queue', visited') \<Rightarrow>
                       bfs_loop queue' visited' nodes_expanded' max_queue_size'))))"

declare bfs_loop.simps [code]

definition bfs :: "state \<Rightarrow> (py_error + result) option" where
  "bfs initial_state =
     (if \<not> is_solvable initial_state then Some (Inr (None, 0, 0))
      else bfs_loop [Node initial_state None None 0] {initial_state} 0 0)"

subsection \<open>Depth-first search\<close>

text \<open>
  The stack is a Python list: \<open>pop\<close> takes the last element and \<open>append\<close> adds at the
  end. The \<open>for\<close> loop runs over the reversed successor list and leaves the visited set
  unchanged.
\<close>

fun dfs_expand :: "node \<Rightarrow> (state \<times> string) list \<Rightarrow> state set \<Rightarrow> node list \<Rightarrow> node list" where
  "dfs_expand current_node [] visited stack = stack"
| "dfs_expand current_node ((new_state, act) # ms) visited stack =
     (if new_state \<notin> visited then
        dfs_expand current_node ms visited
          (stack @ [Node new_state (Some current_node) (Some act) (cost current_node + 1)])
      else dfs_expand current_node ms visited stack)"

partial_function (option) dfs_loop :: "node list \<Rightarrow> state set \<Rightarrow> nat \<Rightarrow> nat
    \<Rightarrow> (py_error + result) option" where
  "dfs_loop stack visited nodes_expanded max_stack_size =
     (if stack = [] then Some (Inr (None, nodes_expanded, max_stack_size))
      else
        (let max_stack_size' = max max_stack_size (length stack);
             current_node = last stack;
             stack' = butlast stack;
             nodes_expanded' = nodes_expanded + 1 in
         if state current_node \<in> visited then
           dfs_loop stack' visited nodes_expanded' max_stack_size'
         else
           (let visited' = insert (state current_node) visited in
            if is_goal (state current_node) then
              Some (Inr (Some (get_path current_node), nodes_expanded', max_stack_size'))
            else
              (case get_possible_moves (state current_node) of
                 Inl e \<Rightarrow> Some (Inl e)
               | Inr ms \<Rightarrow>
                   dfs_loop (dfs_expand current_node (rev ms) visited' stack') visited'
                     nodes_expanded' max_stack_size'))))"

declare dfs_loop.simps [code]

definition dfs :: "state \<Rightarrow> (py_error + result) option" where
  "dfs initial_state =
     (if \<not> is_solvable initial_state then Some (Inr (None, 0, 0))
      else dfs_loop [Node initial_state None None 0] {} 0 0)"

subsection \<open>Heuristics\<close>

fun misplaced_loop :: "state \<Rightarrow> nat list \<Rightarrow> nat \<Rightarrow> py_error + nat" where
  "misplaced_loop st [] misplaced = Inr misplaced"
| "misplaced_loop st (i # is) misplaced =
     (if i < length st then
        misplaced_loop st is
          (if st ! i \<noteq> goal_state ! i \<and> st ! i \<noteq> 0 then misplaced + 1 else misplaced)
      else Inl IndexError)"

definition misplaced_tiles_heuristic :: "state \<Rightarrow> py_error + nat" where
  "misplaced_tiles_heuristic st = misplaced_loop st [0 ..< 9] 0"

fun manhattan_loop :: "state \<Rightarrow> nat list \<Rightarrow> nat \<Rightarrow> py_error + nat" where
  "manhattan_loop st [] distance = Inr distance"
| "manhattan_loop st (i # is) distance =
     (if i < length st then
        (let tile = st ! i in
         if tile = 0 then manhattan_loop st is distance
         else
           (let current_row = i div cols; current_col = i mod cols in
            case tuple_index goal_state tile of
              Inl e \<Rightarrow> Inl e
            | Inr goal_index \<Rightarrow>
                (let goal_row = goal_index div cols; goal_col = goal_index mod cols in
                 manhattan_loop st is
                   (distance + (nat \<bar>int current_row - int goal_row\<bar>
                              + nat \<bar>int current_col - int goal_col\<bar>)))))
      else Inl IndexError)"

definition manhattan_distance_heuristic :: "state \<Rightarrow> py_error + nat" where
  "manhattan_distance_heuristic st = manhattan_loop st [0 ..< 9] 0"

subsection \<open>A* search\<close>

text \<open>
  The open set is a binary heap of triples (f, node id, node), compared as Python tuples:
  by f first, then by node id. The ids are handed out by a counter, so two entries never
  agree on both and the nodes themselves are never compared. The heap is modelled by what
  it delivers: \<open>heappush\<close> adds an entry, \<open>heappop\<close> removes the least one; the size of the
  heap is the number of entries.
\<close>

type_synonym entry = "nat \<times> nat \<times> node"

definition entry_less :: "entry \<Rightarrow> entry \<Rightarrow> bool" where
  "entry_less a b \<longleftrightarrow> fst a < fst b \<or> (fst a = fst b \<and> fst (snd a) < fst (snd b))"

fun least_entry :: "entry \<Rightarrow> entry list \<Rightarrow> entry" where
  "least_entry e [] = e"
| "least_entry e (x # xs) = least_entry (if entry_less x e then x else e) xs"

definition heappush :: "entry list \<Rightarrow> entry \<Rightarrow> entry list" where
  "heappush open_set e = open_set @ [e]"

fun heappop :: "entry list \<Rightarrow> (entry \<times> entry list) option" where
  "heappop [] = None"
| "heappop (e # es) = (let m = least_entry e es in Some (m, remove1 m (e # es)))"

text \<open>The \<open>for\<close> loop over the successors of the expanded node.\<close>

fun a_star_expand :: "(state \<Rightarrow> py_error + nat) \<Rightarrow> node \<Rightarrow> (state \<times> string) list
    \<Rightarrow> entry list \<times> (state \<rightharpoonup> nat) \<times> nat
    \<Rightarrow> py_error + (entry list \<times> (state \<rightharpoonup> nat) \<times> nat)" where
  "a_star_expand heuristic_func current_node [] (open_set, g_scores, node_counter) =
     Inr (open_set, g_scores, node_counter)"
| "a_star_expand heuristic_func current_node ((new_state, act) # ms)
       (open_set, g_scores, node_counter) =
     (let new_g_score = cost current_node + 1 in
      if (case g_scores new_state of None \<Rightarrow> True | Some g \<Rightarrow> new_g_score < g) then
        (let g_scores' = g_scores(new_state \<mapsto> new_g_score) in
         case heuristic_func new_state of
           Inl e \<Rightarrow> Inl e
         | Inr new_h_score \<Rightarrow>
             (let new_f_score = new_g_score + new_h_score;
                  node_counter' = node_counter + 1;
                  new_node = Node new_state (Some current_node) (Some act) new_g_score in
              a_star_expand heuristic_func current_node ms
                (heappush open_set (new_f_score, node_counter', new_node), g_scores',
                 node_counter')))
      else a_star_expand heuristic_func current_node ms (open_set, g_scores, node_counter))"

partial_function (option) a_star_loop :: "(state \<Rightarrow> py_error + nat) \<Rightarrow> entry list
    \<Rightarrow> (state \<rightharpoonup> nat) \<Rightarrow> state set \<Rightarrow> nat \<Rightarrow> nat \<Rightarrow> nat \<Rightarrow> (py_error + result) option" where
  "a_star_loop heuristic_func open_set g_scores closed_set nodes_expanded max_open_set_size
       node_counter =
     (case heappop open_set of
        None \<Rightarrow> Some (Inr (None, nodes_expanded, max_open_set_size))
      | Some ((f_cost, node_id, current_node), open_set') \<Rightarrow>
          (let max_open_set_size' = max max_open_set_size (length open_set);
               nodes_expanded' = nodes_expanded + 1 in
           if state current_node \<in> closed_set then
             a_star_loop heuristic_func open_set' g_scores closed_set nodes_expanded'
               max_open_set_size' node_counter
           else
             (let closed_set' = insert (state current_node) closed_set in
              if is_goal (state current_node) then
                Some (Inr (Some (get_path current_node), nodes_expanded', max_open_set_size'))
              else
                (case get_possible_moves (state current_node) of
                   Inl e \<Rightarrow> Some (Inl e)
                 | Inr ms \<Rightarrow>
                     (case a_star_expand heuristic_func current_node ms
                             (open_set', g_scores, node_counter) of
                        Inl e \<Rightarrow> Some (Inl e)
                      | Inr (open_set'', g_scores', node_counter') \<Rightarrow>
                          a_star_loop heuristic_func open_set'' g_scores' closed_set'
                            nodes_expanded' max_open_set_size' node_counter')))))"

declare a_star_loop.simps [code]

definition a_star :: "(state \<Rightarrow> py_error + nat) \<Rightarrow> state \<Rightarrow> (py_error + result) option" where
  "a_star heuristic_func initial_state =
     (if \<not> is_solvable initial_state then Some (Inr (None, 0, 0))
      else
        (case heuristic_func initial_state of
           Inl e \<Rightarrow> Some (Inl e)
         | Inr h \<Rightarrow>
             a_star_loop heuristic_func [(h, 0, Node initial_state None None 0)]
               [initial_state \<mapsto> 0] {} 0 0 0))"

section \<open>Notions of the specification\<close>

text \<open>
  A well-formed state holds each of the values 0 to 8 exactly once. This is the check the
  input layer makes: the sorted tuple is \<open>[0, 1, ..., 8]\<close>.
\<close>

definition valid_state :: "state \<Rightarrow> bool" where
  "valid_state st \<longleftrightarrow> sort st = [0, 1, 2, 3, 4, 5, 6, 7, 8]"

text \<open>The state with the contents of two cells exchanged.\<close>

definition swap_cells :: "state \<Rightarrow> nat \<Rightarrow> nat \<Rightarrow> state" where
  "swap_cells st i j = st[i := st ! j, j := st ! i]"

text \<open>The cell that holds the blank: the number of tiles in front of the first 0.\<close>

definition blank_cell :: "state \<Rightarrow> nat" where
  "blank_cell st = length (takeWhile (\<lambda>tile. tile \<noteq> 0) st)"

text \<open>
  The successors as the specification describes them: for the directions Up, Down, Left,
  Right, in this order, whose target cell lies within the 3 by 3 grid, the state with the
  blank and the tile of the target cell exchanged, paired with the label.
\<close>

definition successors_spec :: "state \<Rightarrow> (state \<times> string) list" where
  "successors_spec st =
     (let b = blank_cell st; r = b div 3; c = b mod 3 in
      (if 1 \<le> r then [(swap_cells st b (3 * (r - 1) + c), ''Up'')] else []) @
      (if r + 1 < 3 then [(swap_cells st b (3 * (r + 1) + c), ''Down'')] else []) @
      (if 1 \<le> c then [(swap_cells st b (3 * r + (c - 1)), ''Left'')] else []) @
      (if c + 1 < 3 then [(swap_cells st b (3 * r + (c + 1)), ''Right'')] else []))"

text \<open>The opposite direction label.\<close>

definition opposite :: "string \<Rightarrow> string" where
  "opposite m =
     (if m = ''Up'' then ''Down'' else if m = ''Down'' then ''Up''
      else if m = ''Left'' then ''Right'' else if m = ''Right'' then ''Left'' else m)"

text \<open>
  The number of inversions of a sequence of tiles: the pairs of positions whose tiles
  stand out of ascending order.
\<close>

definition inversion_pairs :: "int list \<Rightarrow> (nat \<times> nat) set" where
  "inversion_pairs tiles = {(i, j). i < j \<and> j < length tiles \<and> tiles ! i > tiles ! j}"

definition non_blank_tiles :: "state \<Rightarrow> int list" where
  "non_blank_tiles st = filter (\<lambda>tile. tile \<noteq> 0) st"

definition inversions :: "state \<Rightarrow> nat" where
  "inversions st = card (inversion_pairs (non_blank_tiles st))"

text \<open>One move: \<open>t\<close> is among the successors of \<open>s\<close>.\<close>

definition is_move :: "state \<Rightarrow> state \<times> string \<Rightarrow> bool" where
  "is_move s sm \<longleftrightarrow> (case get_possible_moves s of Inl e \<Rightarrow> False | Inr ms \<Rightarrow> sm \<in> set ms)"

text \<open>Auxiliary: the inversions counted tile by tile, each against the tiles after it.\<close>

fun inv_count :: "int list \<Rightarrow> nat" where
  "inv_count [] = 0"
| "inv_count (x # xs) = length (filter (\<lambda>y. x > y) xs) + inv_count xs"

text \<open>One step of the puzzle, and reachability by any number of steps.\<close>

definition move_rel :: "state \<Rightarrow> state \<Rightarrow> bool" where
  "move_rel s t \<longleftrightarrow> (\<exists>m. is_move s (t, m))"

definition reachable :: "state \<Rightarrow> state \<Rightarrow> bool" where
  "reachable s t \<longleftrightarrow> move_rel\<^sup>*\<^sup>* s t"

text \<open>
  Auxiliary: what one cell contributes to each heuristic, as the loop bodies compute it.
\<close>

definition misplaced_at :: "nat \<Rightarrow> int \<Rightarrow> nat" where
  "misplaced_at i tile = (if tile \<noteq> goal_state ! i \<and> tile \<noteq> 0 then 1 else 0)"

definition tile_distance :: "nat \<Rightarrow> int \<Rightarrow> nat" where
  "tile_distance i tile =
     (if tile = 0 then 0
      else case tuple_index goal_state tile of
             Inl e \<Rightarrow> 0
           | Inr goal_index \<Rightarrow>
               nat \<bar>int (i div cols) - int (goal_index div cols)\<bar>
               + nat \<bar>int (i mod cols) - int (goal_index mod cols)\<bar>)"

text \<open>
  The nodes a search can build from the initial state: the root, and the child of such a
  node along one of the moves of its state, with the cost counted up by one.
\<close>

inductive node_ok :: "state \<Rightarrow> node \<Rightarrow> bool" for init :: state where
  root: "node_ok init (Node init None None 0)"
| child: "node_ok init p \<Longrightarrow> is_move (state p) (s, a) \<Longrightarrow>
          node_ok init (Node s (Some p) (Some a) (cost p + 1))"

text \<open>
  A path of moves from the initial state: its first element is the initial state with
  the label "Initial State", and each further element is a successor of the state before
  it, paired with the label of that move.
\<close>

definition move_path :: "state \<Rightarrow> path \<Rightarrow> bool" where
  "move_path init p \<longleftrightarrow>
     p \<noteq> [] \<and> hd p = (init, Some ''Initial State'') \<and>
     (\<forall>i. Suc i < length p \<longrightarrow>
        (\<exists>ms m. get_possible_moves (fst (p ! i)) = Inr ms \<and> snd (p ! Suc i) = Some m \<and>
                (fst (p ! Suc i), m) \<in> set ms))"

text \<open>A solution path: a path of moves from the initial state that ends in the goal state.\<close>

definition solution_path :: "state \<Rightarrow> path \<Rightarrow> bool" where
  "solution_path init p \<longleftrightarrow> move_path init p \<and> fst (last p) = goal_state"

text \<open>
  The least number of moves that lead from a state to the goal state: \<open>k\<close> moves lead
  from \<open>s\<close> to \<open>t\<close> when \<open>t\<close> is related to \<open>s\<close> by the \<open>k\<close>-fold composition of the
  step relation.
\<close>

definition min_moves :: "state \<Rightarrow> nat" where
  "min_moves init = (LEAST k. (move_rel ^^ k) init goal_state)"

text \<open>The states within \<open>d\<close> moves of the initial state.\<close>

definition within :: "nat \<Rightarrow> state \<Rightarrow> state \<Rightarrow> bool" where
  "within d init s \<longleftrightarrow> (\<exists>k\<le>d. (move_rel ^^ k) init s)"

text \<open>
  The invariant of the breadth-first loop. The nodes of the queue are nodes of the search
  tree whose states are marked visited, and their costs are optimal, ascending along the
  queue and at most one above the cost \<open>d\<close> of the first node; every state within \<open>d\<close> moves
  of the initial state is visited; and a visited state that is no longer in the queue has
  been expanded: it is not the goal, and all its successors are visited.
\<close>

definition bfs_inv :: "state \<Rightarrow> node list \<Rightarrow> state set \<Rightarrow> bool" where
  "bfs_inv init queue visited \<longleftrightarrow>
     (\<forall>n\<in>set queue. node_ok init n \<and> state n \<in> visited) \<and>
     init \<in> visited \<and>
     (\<forall>s\<in>visited. reachable init s) \<and>
     (\<forall>u\<in>visited - state ` set queue. u \<noteq> goal_state \<and> (\<forall>t. move_rel u t \<longrightarrow> t \<in> visited)) \<and>
     (\<forall>n\<in>set queue. \<forall>k. (move_rel ^^ k) init (state n) \<longrightarrow> cost n \<le> k) \<and>
     (\<forall>n\<in>set queue. cost n \<le> cost (hd queue) + 1) \<and>
     sorted (map cost queue) \<and>
     (queue \<noteq> [] \<longrightarrow> (\<forall>s. within (cost (hd queue)) init s \<longrightarrow> s \<in> visited))"

text \<open>
  The invariant of the A* loop, for a heuristic with values \<open>hv\<close>. Every entry of the
  open set carries a node of the search tree with its f-value, and the best known cost of
  its state is at most the cost of the node; every best known cost is the length of some
  sequence of moves from the initial state; a closed state is not the goal, its best known
  cost is optimal, and each of its successors has a best known cost at most one higher;
  and every discovered state that is not closed has an entry in the open set whose node
  has the best known cost.
\<close>

definition a_star_inv :: "state \<Rightarrow> (state \<Rightarrow> nat) \<Rightarrow> entry list \<Rightarrow> (state \<rightharpoonup> nat)
    \<Rightarrow> state set \<Rightarrow> bool" where
  "a_star_inv init hv open_set g closed \<longleftrightarrow>
     (\<forall>e\<in>set open_set. node_ok init (snd (snd e)) \<and>
        fst e = cost (snd (snd e)) + hv (state (snd (snd e))) \<and>
        (\<exists>k. g (state (snd (snd e))) = Some k \<and> k \<le> cost (snd (snd e)))) \<and>
     g init = Some 0 \<and>
     (\<forall>s k. g s = Some k \<longrightarrow> (move_rel ^^ k) init s) \<and>
     (\<forall>s\<in>closed. s \<noteq> goal_state \<and>
        (\<exists>k. g s = Some k \<and> (\<forall>j. (move_rel ^^ j) init s \<longrightarrow> k \<le> j) \<and>
           (\<forall>t. move_rel s t \<longrightarrow> (\<exists>k'. g t = Some k' \<and> k' \<le> k + 1)))) \<and>
     (\<forall>s k. g s = Some k \<longrightarrow> s \<notin> closed \<longrightarrow>
        (\<exists>e\<in>set open_set. state (snd (snd e)) = s \<and> cost (snd (snd e)) = k))"

text \<open>The values of the two heuristics on well-formed states.\<close>

definition misplaced_value :: "state \<Rightarrow> nat" where
  "misplaced_value s = (\<Sum>i<9. misplaced_at i (s ! i))"

definition manhattan_value :: "state \<Rightarrow> nat" where
  "manhattan_value s = (\<Sum>i<9. tile_distance i (s ! i))"

text \<open>
  A constructive argument that the goal can be reached from every solvable state: the tiles
  1, 2, 3, 4 and 7 are brought home one after the other, and the remaining block of four
  cells is rotated into place. Moves are written as the letters U, D, L, R.
\<close>

definition decode_move :: "char \<Rightarrow> string" where
  "decode_move c =
     (if c = CHR ''U'' then ''Up'' else if c = CHR ''D'' then ''Down''
      else if c = CHR ''L'' then ''Left'' else ''Right'')"

text \<open>The successor of a state under the move with a given label, when there is one.\<close>

definition slide :: "state \<Rightarrow> string \<Rightarrow> state option" where
  "slide st m =
     (case get_possible_moves st of
        Inl e \<Rightarrow> None
      | Inr ms \<Rightarrow> map_option fst (find (\<lambda>sm. snd sm = m) ms))"

fun slides :: "state \<Rightarrow> string list \<Rightarrow> state option" where
  "slides st [] = Some st"
| "slides st (m # ms) = (case slide st m of None \<Rightarrow> None | Some t \<Rightarrow> slides t ms)"

definition follow :: "state \<Rightarrow> string \<Rightarrow> state option" where
  "follow st route = slides st (map decode_move route)"

text \<open>
  The tiles in the order in which they are brought home, the home cell of a tile, and
  the states in which the first \<open>k\<close> of these tiles are at home.
\<close>

definition placing_order :: "int list" where
  "placing_order = [1, 2, 3, 4, 7]"

definition home :: "int \<Rightarrow> nat" where
  "home t = nat (t - 1)"

definition placed :: "nat \<Rightarrow> state \<Rightarrow> bool" where
  "placed k st \<longleftrightarrow> list_all (\<lambda>t. st ! home t = t) (take k placing_order)"

text \<open>
  While the tile number \<open>k\<close> is brought home, only the blank and the first \<open>k + 1\<close> tiles
  of the order matter; every other tile is replaced by the mark 9.
\<close>

definition tracked :: "nat \<Rightarrow> int \<Rightarrow> int" where
  "tracked k x = (if x = 0 \<or> x \<in> set (take k placing_order) then x else 9)"

definition free_cell :: "nat \<Rightarrow> nat \<Rightarrow> bool" where
  "free_cell k i \<longleftrightarrow> goal_state ! i \<notin> set (take k placing_order)"

definition stage_state :: "nat \<Rightarrow> nat \<Rightarrow> nat \<Rightarrow> state" where
  "stage_state k p0 p =
     (map (\<lambda>g. if g \<in> set (take k placing_order) then g else 9) goal_state)
       [p := placing_order ! k, p0 := 0]"

text \<open>
  The routes: \<open>routes ! k ! p0 ! p\<close> brings tile number \<open>k\<close> of the order home when the
  blank is in cell \<open>p0\<close> and the tile in cell \<open>p\<close>, and leaves the tiles before it at home.
\<close>

definition routes :: "string list list list" where
  "routes = [
    [
      [[], ''R'', ''RRDLLUR'', ''D'', ''DRULD'', ''DRRULDLUR'', ''DDRUULD'', ''DRDLURULD'', ''DDRRULDLURULD''],
      [[], [], ''RDLLUR'', ''LD'', ''DLUR'', ''DRULDLUR'', ''DLDRUULD'', ''DDLURULD'', ''DDRULDLURULD''],
      [[], ''DLLUR'', [], ''LLD'', ''LDLUR'', ''DLURDLLUR'', ''DLLDRUULD'', ''DLDLURULD'', ''DDLURULDLUR''],
      [[], ''UR'', ''URRDLLUR'', [], ''RULD'', ''RRULDLUR'', ''DRUULD'', ''RDLURULD'', ''DRRULDLURULD''],
      [[], ''LUR'', ''URDLLUR'', ''ULD'', [], ''RULDLUR'', ''LDRUULD'', ''DLURULD'', ''DRULDLURULD''],
      [[], ''LLUR'', ''LURDLLUR'', ''ULLD'', ''ULDLUR'', [], ''LLDRUULD'', ''LDLURULD'', ''DLURULDLUR''],
      [[], ''UUR'', ''UURRDLLUR'', ''RUULD'', ''URULD'', ''URRULDLUR'', [], ''URDLURULD'', ''RRULDLURULD''],
      [[], ''ULUR'', ''UURDLLUR'', ''UULD'', ''LURULD'', ''URULDLUR'', ''ULDRUULD'', [], ''RULDLURULD''],
      [[], ''ULLUR'', ''ULURDLLUR'', ''UULLD'', ''UULDLUR'', ''LURULDLUR'', ''ULLDRUULD'', ''ULDLURULD'', []]],
    [
      [[], [], [], [], [], [], [], [], []],
      [[], [], ''R'', ''DLDRRUULD'', ''D'', ''DRULD'', ''LDDRULURD'', ''DDRUULD'', ''DRDLURULD''],
      [[], [], [], ''DLLDRRUULD'', ''LD'', ''DLUR'', ''LLDDRULURD'', ''DLDRUULD'', ''DDLURULD''],
      [[], [], ''RUR'', [], ''DRRUULD'', ''RRULD'', ''DRULDRRUULD'', ''RDRUULD'', ''RRDLURULD''],
      [[], [], ''UR'', ''LDRRUULD'', [], ''RULD'', ''ULDDRULURD'', ''DRUULD'', ''RDLURULD''],
      [[], [], ''LUR'', ''LLDRRUULD'', ''ULD'', [], ''ULLDDRULURD'', ''LDRUULD'', ''DLURULD''],
      [[], [], ''URUR'', ''RULDRRUULD'', ''RRUULD'', ''URRULD'', [], ''URDRUULD'', ''URRDLURULD''],
      [[], [], ''UUR'', ''ULDRRUULD'', ''RUULD'', ''URULD'', ''LURDRUULD'', [], ''URDLURULD''],
      [[], [], ''ULUR'', ''ULLDRRUULD'', ''UULD'', ''LURULD'', ''LLURDRUULD'', ''ULDRUULD'', []]],
    [
      [[], [], [], [], [], [], [], [], []],
      [[], [], [], [], [], [], [], [], []],
      [[], [], [], ''DLLURDRULLD'', ''DLLURRDLULD'', ''D'', ''LDDLURDRULURD'', ''LDDRULURD'', ''LDRDLUURD''],
      [[], [], [], [], ''URDRULLD'', ''URRDLULD'', ''DRULURDRULLD'', ''RDLUURDRULLD'', ''RRULDRDLUURD''],
      [[], [], [], ''LURDRULLD'', [], ''LURRDLULD'', ''LDRULURDRULLD'', ''DLUURDRULLD'', ''RULDRDLUURD''],
      [[], [], [], ''LLURDRULLD'', ''LLURRDLULD'', [], ''ULDDLURDRULURD'', ''ULDDRULURD'', ''ULDRDLUURD''],
      [[], [], [], ''RULURDRULLD'', ''UURDRULLD'', ''UURRDLULD'', [], ''URDLUURDRULLD'', ''URRULDRDLUURD''],
      [[], [], [], ''ULURDRULLD'', ''LUURDRULLD'', ''ULURRDLULD'', ''ULDRULURDRULLD'', [], ''URULDRDLUURD''],
      [[], [], [], ''ULLURDRULLD'', ''ULLURRDLULD'', ''UULDRDLUURD'', ''UULDDLURDRULURD'', ''UULDDRULURD'', []]],
    [
      [[], [], [], [], [], [], [], [], []],
      [[], [], [], [], [], [], [], [], []],
      [[], [], [], [], [], [], [], [], []],
      [[], [], [], [], ''R'', ''RRDLLUR'', ''D'', ''DRULD'', ''DRRULDLUR''],
      [[], [], [], [], [], ''RDLLUR'', ''LD'', ''DLUR'', ''DRULDLUR''],
      [[], [], [], [], ''DLLUR'', [], ''LLD'', ''LDLUR'', ''DLURDLLUR''],
      [[], [], [], [], ''UR'', ''URRDLLUR'', [], ''RULD'', ''RRULDLUR''],
      [[], [], [], [], ''LUR'', ''URDLLUR'', ''ULD'', [], ''RULDLUR''],
      [[], [], [], [], ''LLUR'', ''LURDLLUR'', ''ULLD'', ''ULDLUR'', []]],
    [
      [[], [], [], [], [], [], [], [], []],
      [[], [], [], [], [], [], [], [], []],
      [[], [], [], [], [], [], [], [], []],
      [[], [], [], [], [], [], [], [], []],
      [[], [], [], [], [], ''DLURRDLULDR'', [], ''RULLDDRULURRD'', ''DLURDRULLDR''],
      [[], [], [], [], ''ULLDRDLUURRD'', [], [], ''ULLDDRULURRD'', ''DLLURRDLULDR''],
      [[], [], [], [], ''UURRDDLURULLDDR'', ''URRDLULDR'', [], ''R'', ''URDRULLDR''],
      [[], [], [], [], ''URULLDDRULURRD'', ''LURRDLULDR'', [], [], ''LURDRULLDR''],
      [[], [], [], [], ''UULLDRDLUURRD'', ''LLURRDLULDR'', [], ''LLURDRULLDR'', []]]]"

definition route :: "nat \<Rightarrow> nat \<Rightarrow> nat \<Rightarrow> string" where
  "route k p0 p = routes ! k ! p0 ! p"

definition stage_ok :: "nat \<Rightarrow> nat \<Rightarrow> nat \<Rightarrow> bool" where
  "stage_ok k p0 p \<longleftrightarrow>
     (case follow (stage_state k p0 p) (route k p0 p) of
        None \<Rightarrow> False
      | Some a \<Rightarrow> placed (Suc k) a)"

definition routes_ok :: bool where
  "routes_ok \<longleftrightarrow>
     list_all (\<lambda>k. list_all (\<lambda>p0. list_all (\<lambda>p.
         p0 = p \<or> \<not> free_cell k p0 \<or> \<not> free_cell k p \<or> stage_ok k p0 p)
       [0 ..< 9]) [0 ..< 9]) [0 ..< 5]"

text \<open>
  The last block: with 1, 2, 3, 4 and 7 at home, the cells 4, 5, 7 and 8 hold the blank
  and the tiles 5, 6 and 8; the route for each solvable arrangement.
\<close>

definition last_routes :: "(state \<times> string) list" where
  "last_routes = [
    ([1, 2, 3, 4, 5, 6, 7, 8, 0], []),
    ([1, 2, 3, 4, 5, 6, 7, 0, 8], ''R''),
    ([1, 2, 3, 4, 5, 0, 7, 8, 6], ''D''),
    ([1, 2, 3, 4, 6, 8, 7, 5, 0], ''ULDR''),
    ([1, 2, 3, 4, 6, 8, 7, 0, 5], ''RULDR''),
    ([1, 2, 3, 4, 6, 0, 7, 5, 8], ''LDR''),
    ([1, 2, 3, 4, 8, 5, 7, 6, 0], ''LURD''),
    ([1, 2, 3, 4, 8, 5, 7, 0, 6], ''URD''),
    ([1, 2, 3, 4, 8, 0, 7, 6, 5], ''DLURD''),
    ([1, 2, 3, 4, 0, 5, 7, 8, 6], ''RD''),
    ([1, 2, 3, 4, 0, 6, 7, 5, 8], ''DR''),
    ([1, 2, 3, 4, 0, 8, 7, 6, 5], ''DRULDR'')]"

definition last_route :: "state \<Rightarrow> string" where
  "last_route st = (case map_of last_routes st of None \<Rightarrow> [] | Some r \<Rightarrow> r)"

definition last_block :: "int list" where
  "last_block = [0, 5, 6, 8]"

definition last_ok :: bool where
  "last_ok \<longleftrightarrow>
     list_all (\<lambda>a. list_all (\<lambda>b. list_all (\<lambda>c. list_all (\<lambda>d.
         \<not> valid_state [1, 2, 3, 4, a, b, 7, c, d] \<or> \<not> is_solvable [1, 2, 3, 4, a, b, 7, c, d] \<or>
         follow [1, 2, 3, 4, a, b, 7, c, d] (last_route [1, 2, 3, 4, a, b, 7, c, d]) = Some goal_state)
       last_block) last_block) last_block) last_block"

section \<open>The transition model\<close>

lemma tuple_index_Inr_iff:
  "tuple_index xs v = Inr i \<longleftrightarrow> i < length xs \<and> xs ! i = v \<and> (\<forall>j<i. xs ! j \<noteq> v)"
proof (induction xs arbitrary: i)
  case Nil
  then show ?case by simp
next
  case (Cons x xs)
  show ?case
  proof (cases "x = v")
    case True
    then show ?thesis by (cases i) auto
  next
    case False
    show ?thesis
    proof (cases i)
      case 0
      with False show ?thesis by (auto split: sum.splits)
    next
      case (Suc k)
      have "(\<forall>j<Suc k. (x # xs) ! j \<noteq> v) \<longleftrightarrow> (\<forall>j<k. xs ! j \<noteq> v)"
        using False by (auto simp: less_Suc_eq_0_disj)
      with False Suc Cons.IH [of k] show ?thesis
        by (auto split: sum.splits)
    qed
  qed
qed

lemma tuple_index_Inl_iff: "tuple_index xs v = Inl e \<longleftrightarrow> e = ValueError \<and> v \<notin> set xs"
  by (induction xs) (auto split: sum.splits)

lemma tuple_index_takeWhile:
  "v \<in> set xs \<Longrightarrow> tuple_index xs v = Inr (length (takeWhile (\<lambda>x. x \<noteq> v) xs))"
  by (induction xs) auto

lemma valid_state_mset: "valid_state st \<Longrightarrow> mset st = mset [0, 1, 2, 3, 4, 5, 6, 7, 8]"
  unfolding valid_state_def by (metis mset_sort)

lemma valid_state_length: "valid_state st \<Longrightarrow> length st = 9"
  using valid_state_mset [THEN arg_cong, of st size] by simp

lemma valid_state_set: "valid_state st \<Longrightarrow> set st = {0, 1, 2, 3, 4, 5, 6, 7, 8}"
  using valid_state_mset [THEN arg_cong, of st set_mset] by auto

lemma valid_state_distinct: "valid_state st \<Longrightarrow> distinct st"
  using valid_state_mset [THEN mset_eq_imp_distinct_iff, of st] by simp

lemma valid_state_mset_iff: "valid_state st \<longleftrightarrow> mset st = mset [0, 1, 2, 3, 4, 5, 6, 7, 8]"
proof
  assume "mset st = mset [0, 1, 2, 3, 4, 5, 6, 7, 8]"
  then have "sort st = [0, 1, 2, 3, 4, 5, 6, 7, 8]"
    by (intro properties_for_sort) simp_all
  then show "valid_state st" by (simp add: valid_state_def)
qed (rule valid_state_mset)

lemma valid_state_blank:
  assumes "valid_state st"
  shows "tuple_index st 0 = Inr (blank_cell st)" "blank_cell st < 9" "st ! blank_cell st = 0"
proof -
  have "0 \<in> set st" using valid_state_set [OF assms] by simp
  then show "tuple_index st 0 = Inr (blank_cell st)"
    unfolding blank_cell_def by (rule tuple_index_takeWhile)
  then show "blank_cell st < 9" "st ! blank_cell st = 0"
    using valid_state_length [OF assms] by (simp_all add: tuple_index_Inr_iff)
qed

lemma blank_cell_unique:
  assumes "valid_state st" "i < 9" "st ! i = 0"
  shows "blank_cell st = i"
proof -
  have "st ! blank_cell st = st ! i"
    using assms valid_state_blank(3) [OF assms(1)] by simp
  moreover have "blank_cell st < length st" "i < length st"
    using assms valid_state_blank(2) [OF assms(1)] valid_state_length [OF assms(1)] by simp_all
  ultimately show ?thesis
    using valid_state_distinct [OF assms(1)] by (simp add: nth_eq_iff_index_eq)
qed

lemma get_possible_moves_blank:
  assumes "length st = 9" "tuple_index st 0 = Inr b"
  shows "get_possible_moves st = Inr (
     (if 3 \<le> b then [(swap_cells st b (b - 3), ''Up'')] else []) @
     (if b < 6 then [(swap_cells st b (b + 3), ''Down'')] else []) @
     (if b mod 3 \<noteq> 0 then [(swap_cells st b (b - 1), ''Left'')] else []) @
     (if b mod 3 \<noteq> 2 then [(swap_cells st b (b + 1), ''Right'')] else []))"
proof -
  have b: "b < 9" using assms by (simp add: tuple_index_Inr_iff)
  then consider "b = 0" | "b = 1" | "b = 2" | "b = 3" | "b = 4" | "b = 5" | "b = 6" | "b = 7" | "b = 8"
    by linarith
  then show ?thesis
    using assms
    by cases (simp_all add: get_possible_moves_def find_blank_def directions_def rows_def cols_def
        swap_cells_def numeral_2_eq_2)
qed

lemma successors_spec_blank:
  assumes "blank_cell st = b" "b < 9"
  shows "successors_spec st =
     (if 3 \<le> b then [(swap_cells st b (b - 3), ''Up'')] else []) @
     (if b < 6 then [(swap_cells st b (b + 3), ''Down'')] else []) @
     (if b mod 3 \<noteq> 0 then [(swap_cells st b (b - 1), ''Left'')] else []) @
     (if b mod 3 \<noteq> 2 then [(swap_cells st b (b + 1), ''Right'')] else [])"
proof -
  from assms(2) consider "b = 0" | "b = 1" | "b = 2" | "b = 3" | "b = 4" | "b = 5" | "b = 6" | "b = 7" | "b = 8"
    by linarith
  then show ?thesis
    using assms(1) by cases (simp_all add: successors_spec_def numeral_2_eq_2)
qed

lemma get_possible_moves_valid:
  assumes "valid_state st"
  shows "get_possible_moves st = Inr (successors_spec st)"
  using get_possible_moves_blank [OF valid_state_length [OF assms] valid_state_blank(1) [OF assms]]
    successors_spec_blank [OF refl valid_state_blank(2) [OF assms]]
  by simp

lemma swap_cells_length [simp]: "length (swap_cells st i j) = length st"
  by (simp add: swap_cells_def)

lemma swap_cells_mset: "i < length st \<Longrightarrow> j < length st \<Longrightarrow> mset (swap_cells st i j) = mset st"
  unfolding swap_cells_def by (simp add: mset_swap)

lemma swap_cells_valid:
  "valid_state st \<Longrightarrow> i < 9 \<Longrightarrow> j < 9 \<Longrightarrow> valid_state (swap_cells st i j)"
  using valid_state_length [of st] by (simp add: valid_state_mset_iff swap_cells_mset)

lemma swap_cells_nth:
  "i < length st \<Longrightarrow> j < length st \<Longrightarrow>
   swap_cells st i j ! k = (if k = j then st ! i else if k = i then st ! j else st ! k)"
  by (simp add: swap_cells_def nth_list_update)

lemma swap_cells_back:
  assumes "i < length st" "j < length st"
  shows "swap_cells (swap_cells st i j) j i = st"
  by (rule nth_equalityI) (use assms in \<open>auto simp: swap_cells_nth\<close>)

lemma is_move_iff:
  assumes "valid_state st"
  shows "is_move st (s', m) \<longleftrightarrow>
     (m = ''Up'' \<and> 3 \<le> blank_cell st \<and> s' = swap_cells st (blank_cell st) (blank_cell st - 3)) \<or>
     (m = ''Down'' \<and> blank_cell st < 6 \<and> s' = swap_cells st (blank_cell st) (blank_cell st + 3)) \<or>
     (m = ''Left'' \<and> blank_cell st mod 3 \<noteq> 0 \<and> s' = swap_cells st (blank_cell st) (blank_cell st - 1)) \<or>
     (m = ''Right'' \<and> blank_cell st mod 3 \<noteq> 2 \<and> s' = swap_cells st (blank_cell st) (blank_cell st + 1))"
  unfolding is_move_def
    get_possible_moves_blank [OF valid_state_length [OF assms] valid_state_blank(1) [OF assms]]
  by auto

lemma left_cell: "(b::nat) mod 3 \<noteq> 0 \<Longrightarrow> (b - 1) mod 3 \<noteq> 2 \<and> b - 1 + 1 = b"
  by (cases b) (auto simp: mod_Suc split: if_splits)

lemma right_cell: "(b::nat) mod 3 \<noteq> 2 \<Longrightarrow> (b + 1) mod 3 \<noteq> 0"
  by (auto simp: mod_Suc split: if_splits)

lemma is_move_target:
  assumes "valid_state st" "is_move st (s', m)"
  obtains t where "t < 9" "t \<noteq> blank_cell st" "s' = swap_cells st (blank_cell st) t"
    "is_move s' (st, opposite m)" "valid_state s'" "blank_cell s' = t"
proof -
  let ?b = "blank_cell st"
  have b: "?b < 9" "st ! ?b = 0" and len: "length st = 9"
    using valid_state_blank [OF assms(1)] valid_state_length [OF assms(1)] by simp_all
  have rev_ok: "is_move s' (st, opposite m) \<and> valid_state s' \<and> blank_cell s' = t"
    if t: "t < 9" "s' = swap_cells st ?b t"
      and dir: "m = ''Up'' \<and> 3 \<le> ?b \<and> t = ?b - 3 \<or> m = ''Down'' \<and> ?b < 6 \<and> t = ?b + 3 \<or>
                m = ''Left'' \<and> ?b mod 3 \<noteq> 0 \<and> t = ?b - 1 \<or> m = ''Right'' \<and> ?b mod 3 \<noteq> 2 \<and> t = ?b + 1"
    for t
  proof -
    have v: "valid_state s'" using t b assms(1) by (simp add: swap_cells_valid)
    have "s' ! t = 0" using t b len by (simp add: swap_cells_nth)
    then have bt: "blank_cell s' = t" using v t by (intro blank_cell_unique) simp_all
    have st: "swap_cells s' t ?b = st" using t b len by (simp add: swap_cells_back)
    consider (up) "m = ''Up''" "3 \<le> ?b" "t = ?b - 3" | (down) "m = ''Down''" "?b < 6" "t = ?b + 3"
      | (left) "m = ''Left''" "?b mod 3 \<noteq> 0" "t = ?b - 1"
      | (right) "m = ''Right''" "?b mod 3 \<noteq> 2" "t = ?b + 1"
      using dir by blast
    then have "is_move s' (st, opposite m)"
    proof cases
      case up
      then have "opposite m = ''Down''" "t < 6" "t + 3 = ?b"
        using b(1) by (simp_all add: opposite_def)
      then show ?thesis unfolding is_move_iff [OF v] bt using st by auto
    next
      case down
      then have "opposite m = ''Up''" "3 \<le> t" "t - 3 = ?b"
        by (simp_all add: opposite_def)
      then show ?thesis unfolding is_move_iff [OF v] bt using st by auto
    next
      case left
      have "opposite m = ''Right''" using left(1) by (simp add: opposite_def)
      moreover have "t mod 3 \<noteq> 2" "t + 1 = ?b"
        using left_cell [OF left(2)] left(3) by simp_all
      ultimately have "opposite m = ''Right''" "t mod 3 \<noteq> 2" "t + 1 = ?b" by blast+
      then show ?thesis unfolding is_move_iff [OF v] bt using st by auto
    next
      case right
      have "opposite m = ''Left''" using right(1) by (simp add: opposite_def)
      moreover have "t mod 3 \<noteq> 0" using right_cell [OF right(2)] right(3) by simp
      moreover have "t - 1 = ?b" using right(3) by simp
      ultimately have "opposite m = ''Left''" "t mod 3 \<noteq> 0" "t - 1 = ?b" by blast+
      then show ?thesis unfolding is_move_iff [OF v] bt using st by auto
    qed
    with v bt show ?thesis by simp
  qed
  from assms(2) [unfolded is_move_iff [OF assms(1)]] show ?thesis
  proof (elim disjE conjE)
    assume h: "m = ''Up''" "3 \<le> ?b" "s' = swap_cells st ?b (?b - 3)"
    have r: "is_move s' (st, opposite m) \<and> valid_state s' \<and> blank_cell s' = ?b - 3"
      by (rule rev_ok [OF _ h(3)]) (use h(1,2) b(1) in simp_all)
    show ?thesis
      by (rule that [OF _ _ h(3)]) (use r h(2) b(1) in simp_all)
  next
    assume h: "m = ''Down''" "?b < 6" "s' = swap_cells st ?b (?b + 3)"
    have r: "is_move s' (st, opposite m) \<and> valid_state s' \<and> blank_cell s' = ?b + 3"
      by (rule rev_ok [OF _ h(3)]) (use h(1,2) b(1) in simp_all)
    show ?thesis
      by (rule that [OF _ _ h(3)]) (use r h(2) b(1) in simp_all)
  next
    assume h: "m = ''Left''" "?b mod 3 \<noteq> 0" "s' = swap_cells st ?b (?b - 1)"
    have pos: "0 < ?b" using h(2) by (cases "?b") simp_all
    have r: "is_move s' (st, opposite m) \<and> valid_state s' \<and> blank_cell s' = ?b - 1"
      by (rule rev_ok [OF _ h(3)]) (use h(1,2) b(1) in simp_all)
    show ?thesis
      by (rule that [OF _ _ h(3)]) (use r pos b(1) in simp_all)
  next
    assume h: "m = ''Right''" "?b mod 3 \<noteq> 2" "s' = swap_cells st ?b (?b + 1)"
    have ne: "?b \<noteq> 8" using h(2) by auto
    have r: "is_move s' (st, opposite m) \<and> valid_state s' \<and> blank_cell s' = ?b + 1"
      by (rule rev_ok [OF _ h(3)]) (use h(1,2) b(1) ne in simp_all)
    show ?thesis
      by (rule that [OF _ _ h(3)]) (use r ne b(1) in simp_all)
  qed
qed

text \<open>
  Claim C7. On every well-formed state \<open>get_possible_moves\<close> returns exactly the
  successors of the specification: for the directions Up, Down, Left, Right, in this
  order, whose target cell lies within the grid, the state with the blank and the target
  tile exchanged, paired with the direction label.
\<close>

theorem get_possible_moves_successors:
  assumes "valid_state st"
  shows "get_possible_moves st = Inr (successors_spec st)"
  using assms by (rule get_possible_moves_valid)

theorem get_possible_moves_successors_witness:
  "valid_state [1, 2, 3, 4, 0, 5, 6, 7, 8] \<and>
   get_possible_moves [1, 2, 3, 4, 0, 5, 6, 7, 8] =
     Inr [([1, 0, 3, 4, 2, 5, 6, 7, 8], ''Up''), ([1, 2, 3, 4, 7, 5, 6, 0, 8], ''Down''),
          ([1, 2, 3, 0, 4, 5, 6, 7, 8], ''Left''), ([1, 2, 3, 4, 5, 0, 6, 7, 8], ''Right'')] \<and>
   valid_state [0, 1, 2, 3, 4, 5, 6, 7, 8] \<and>
   get_possible_moves [0, 1, 2, 3, 4, 5, 6, 7, 8] =
     Inr [([3, 1, 2, 0, 4, 5, 6, 7, 8], ''Down''), ([1, 0, 2, 3, 4, 5, 6, 7, 8], ''Right'')]"
proof -
  have v: "valid_state [1, 2, 3, 4, 0, 5, 6, 7, 8]" "valid_state [0, 1, 2, 3, 4, 5, 6, 7, 8]"
    by (simp_all add: valid_state_def)
  show ?thesis
    using v get_possible_moves_successors [OF v(1)] get_possible_moves_successors [OF v(2)]
    by (simp add: successors_spec_def blank_cell_def swap_cells_def)
qed

text \<open>
  Claim C9. Moves can be undone: for a well-formed state \<open>s\<close> and a successor
  \<open>(s', m)\<close> of it, the pair of \<open>s\<close> and the opposite direction label is among the
  successors of \<open>s'\<close>.
\<close>

theorem moves_reversible:
  assumes "valid_state s" "get_possible_moves s = Inr ms" "(s', m) \<in> set ms"
  shows "\<exists>ms'. get_possible_moves s' = Inr ms' \<and> (s, opposite m) \<in> set ms'"
proof -
  have "is_move s (s', m)" using assms(2,3) by (simp add: is_move_def)
  from is_move_target [OF assms(1) this] have "is_move s' (s, opposite m)" by blast
  then show ?thesis by (auto simp: is_move_def split: sum.splits)
qed

theorem moves_reversible_witness:
  "valid_state [1, 2, 3, 4, 0, 5, 6, 7, 8] \<and>
   get_possible_moves [1, 2, 3, 4, 0, 5, 6, 7, 8] =
     Inr [([1, 0, 3, 4, 2, 5, 6, 7, 8], ''Up''), ([1, 2, 3, 4, 7, 5, 6, 0, 8], ''Down''),
          ([1, 2, 3, 0, 4, 5, 6, 7, 8], ''Left''), ([1, 2, 3, 4, 5, 0, 6, 7, 8], ''Right'')] \<and>
   (\<exists>ms'. get_possible_moves [1, 2, 3, 0, 4, 5, 6, 7, 8] = Inr ms' \<and>
      ([1, 2, 3, 4, 0, 5, 6, 7, 8], ''Right'') \<in> set ms')"
proof -
  have v: "valid_state [1, 2, 3, 4, 0, 5, 6, 7, 8]"
    by (simp add: valid_state_def)
  have g: "get_possible_moves [1, 2, 3, 4, 0, 5, 6, 7, 8] =
     Inr [([1, 0, 3, 4, 2, 5, 6, 7, 8], ''Up''), ([1, 2, 3, 4, 7, 5, 6, 0, 8], ''Down''),
          ([1, 2, 3, 0, 4, 5, 6, 7, 8], ''Left''), ([1, 2, 3, 4, 5, 0, 6, 7, 8], ''Right'')]"
    by (simp add: get_possible_moves_valid [OF v] successors_spec_def blank_cell_def swap_cells_def)
  have "\<exists>ms'. get_possible_moves [1, 2, 3, 0, 4, 5, 6, 7, 8] = Inr ms' \<and>
      ([1, 2, 3, 4, 0, 5, 6, 7, 8], opposite ''Left'') \<in> set ms'"
    by (rule moves_reversible [OF v g]) simp
  then show ?thesis using v g by (simp add: opposite_def)
qed

section \<open>Solvability and inversions\<close>

lemma fold_count_filter:
  "fold (\<lambda>j acc. if P j then acc + 1 else acc) js (acc::nat) = acc + length (filter P js)"
  by (induction js arbitrary: acc) auto

lemma fold_add_sum_list:
  "fold (\<lambda>i (acc::nat). acc + f i) is acc = acc + sum_list (map f is)"
  by (induction "is" arbitrary: acc) auto

lemma filter_upt_drop:
  "i \<le> length xs \<Longrightarrow> length (filter (\<lambda>j. P (xs ! j)) [i ..< length xs]) = length (filter P (drop i xs))"
proof -
  assume "i \<le> length xs"
  have "map ((!) xs) [i ..< length xs] = drop i xs"
    by (rule nth_equalityI) auto
  then have "filter P (drop i xs) = filter P (map ((!) xs) [i ..< length xs])" by simp
  also have "length \<dots> = length (filter (\<lambda>j. P (xs ! j)) [i ..< length xs])"
    by (simp add: filter_map comp_def)
  finally show ?thesis by simp
qed

lemma count_inversions_sum:
  "count_inversions tiles =
     sum_list (map (\<lambda>i. length (filter (\<lambda>y. tiles ! i > y) (drop (Suc i) tiles))) [0 ..< length tiles])"
proof -
  have inner: "fold (\<lambda>j inversions. if tiles ! i > tiles ! j then inversions + 1 else inversions)
       [Suc i ..< length tiles] acc
     = acc + length (filter (\<lambda>y. tiles ! i > y) (drop (Suc i) tiles))"
    if "i < length tiles" for i acc
    using that filter_upt_drop [of "Suc i" tiles "\<lambda>y. tiles ! i > y"]
    by (simp add: fold_count_filter)
  have "fold (\<lambda>i inversions.
              fold (\<lambda>j inversions. if tiles ! i > tiles ! j then inversions + 1 else inversions)
                   [i + 1 ..< length tiles] inversions) [0 ..< length tiles] 0
      = fold (\<lambda>i acc. acc + length (filter (\<lambda>y. tiles ! i > y) (drop (Suc i) tiles)))
          [0 ..< length tiles] 0"
    by (rule fold_cong) (simp_all add: inner fun_eq_iff)
  then show ?thesis
    by (simp add: count_inversions_def fold_add_sum_list)
qed

lemma count_inversions_inv_count: "count_inversions tiles = inv_count tiles"
proof (induction tiles)
  case Nil
  show ?case by (simp add: count_inversions_sum)
next
  case (Cons x xs)
  have "[0 ..< length (x # xs)] = 0 # map Suc [0 ..< length xs]"
    by (simp add: upt_conv_Cons map_Suc_upt del: upt_Suc)
  then show ?case
    using Cons.IH by (simp add: count_inversions_sum comp_def del: upt_Suc)
qed

lemma finite_inversion_pairs: "finite (inversion_pairs tiles)"
  by (rule finite_subset [of _ "{..<length tiles} \<times> {..<length tiles}"])
     (auto simp: inversion_pairs_def)

lemma inversion_pairs_Cons:
  "inversion_pairs (x # xs) =
     (\<lambda>j. (0, Suc j)) ` {j. j < length xs \<and> x > xs ! j} \<union> map_prod Suc Suc ` inversion_pairs xs"
  (is "?L = ?A \<union> ?B")
proof -
  have "z \<in> ?L \<longleftrightarrow> z \<in> ?A \<union> ?B" for z
  proof (cases z)
    case (Pair i j)
    then show ?thesis
      by (cases i; cases j) (auto simp: inversion_pairs_def image_iff)
  qed
  then show ?thesis by blast
qed

lemma card_inversion_pairs: "card (inversion_pairs tiles) = inv_count tiles"
proof (induction tiles)
  case Nil
  show ?case by (simp add: inversion_pairs_def)
next
  case (Cons x xs)
  let ?A = "(\<lambda>j. (0::nat, Suc j)) ` {j. j < length xs \<and> x > xs ! j}"
  let ?B = "map_prod Suc Suc ` inversion_pairs xs"
  have "card ?A = card {j. j < length xs \<and> x > xs ! j}"
    by (rule card_image) (simp add: inj_on_def)
  also have "\<dots> = length (filter (\<lambda>y. x > y) xs)"
    by (simp add: length_filter_conv_card)
  finally have A: "card ?A = length (filter (\<lambda>y. x > y) xs)" .
  have B: "card ?B = card (inversion_pairs xs)"
    by (rule card_image) (auto simp: inj_on_def)
  have disj: "?A \<inter> ?B = {}" by auto
  have fin: "finite ?A" "finite ?B" by (simp_all add: finite_inversion_pairs)
  have "card (?A \<union> ?B) = card ?A + card ?B"
    by (rule card_Un_disjoint [OF fin disj])
  then show ?case using A B Cons.IH by (simp add: inversion_pairs_Cons)
qed

lemma is_solvable_inv_count: "is_solvable st \<longleftrightarrow> even (inv_count (non_blank_tiles st))"
  by (simp add: is_solvable_def non_blank_tiles_def count_inversions_inv_count even_iff_mod_2_eq_zero)

text \<open>
  Claim C5. For every well-formed state, \<open>is_solvable\<close> holds if and only if the number of
  inversions among the eight non-blank tiles is even.
\<close>

theorem is_solvable_iff_even_inversions:
  assumes "valid_state st"
  shows "is_solvable st \<longleftrightarrow> even (inversions st)"
  by (simp add: is_solvable_inv_count inversions_def card_inversion_pairs)

theorem is_solvable_iff_even_inversions_witness:
  "valid_state [1, 2, 3, 4, 5, 6, 8, 7, 0] \<and> \<not> is_solvable [1, 2, 3, 4, 5, 6, 8, 7, 0] \<and>
   odd (inversions [1, 2, 3, 4, 5, 6, 8, 7, 0]) \<and>
   valid_state [1, 2, 3, 4, 5, 6, 0, 7, 8] \<and> is_solvable [1, 2, 3, 4, 5, 6, 0, 7, 8] \<and>
   even (inversions [1, 2, 3, 4, 5, 6, 0, 7, 8])"
proof -
  have v: "valid_state [1, 2, 3, 4, 5, 6, 8, 7, 0]" "valid_state [1, 2, 3, 4, 5, 6, 0, 7, 8]"
    by (simp_all add: valid_state_def)
  have s: "\<not> is_solvable [1, 2, 3, 4, 5, 6, 8, 7, 0]" "is_solvable [1, 2, 3, 4, 5, 6, 0, 7, 8]"
    by (simp_all add: is_solvable_inv_count non_blank_tiles_def)
  show ?thesis
    using v s is_solvable_iff_even_inversions [OF v(1)] is_solvable_iff_even_inversions [OF v(2)]
    by simp
qed

section \<open>Moves preserve solvability\<close>

lemma inv_count_swap_adjacent:
  "inv_count (A @ x # y # B) + (if y > x then 1 else 0) + (if y = x then 1 else 0)
   = inv_count (A @ y # x # B) + (if x > y then 1 else 0) + (if y = x then 1 else 0)"
proof (induction A)
  case Nil
  show ?case by auto
next
  case (Cons a A)
  have "length (filter (\<lambda>z. a > z) (A @ x # y # B)) = length (filter (\<lambda>z. a > z) (A @ y # x # B))"
    by auto
  with Cons.IH show ?case by simp
qed

lemma inv_count_swap_parity:
  assumes "x \<noteq> y"
  shows "even (inv_count (A @ x # y # B)) \<longleftrightarrow> odd (inv_count (A @ y # x # B))"
proof (cases "x > y")
  case True
  with inv_count_swap_adjacent [of A x y B] have "inv_count (A @ x # y # B) = inv_count (A @ y # x # B) + 1"
    by simp
  then show ?thesis by simp
next
  case False
  with assms have "y > x" by simp
  with inv_count_swap_adjacent [of A x y B] have "inv_count (A @ x # y # B) + 1 = inv_count (A @ y # x # B)"
    by simp
  then show ?thesis by (metis even_Suc Suc_eq_plus1)
qed

lemma inv_count_pass_two:
  assumes "x \<noteq> m1" "x \<noteq> m2"
  shows "even (inv_count (A @ x # m1 # m2 # B)) \<longleftrightarrow> even (inv_count (A @ m1 # m2 # x # B))"
proof -
  have "even (inv_count (A @ x # m1 # m2 # B)) \<longleftrightarrow> odd (inv_count (A @ m1 # x # m2 # B))"
    using assms(1) by (rule inv_count_swap_parity)
  also have "odd (inv_count (A @ m1 # x # m2 # B)) \<longleftrightarrow> odd (inv_count ((A @ [m1]) @ x # m2 # B))"
    by simp
  also have "\<dots> \<longleftrightarrow> even (inv_count ((A @ [m1]) @ m2 # x # B))"
    using inv_count_swap_parity [OF assms(2), of "A @ [m1]" B] by blast
  finally show ?thesis by simp
qed

lemma valid_state_explicit:
  assumes "valid_state st"
  obtains a0 a1 a2 a3 a4 a5 a6 a7 a8 where "st = [a0, a1, a2, a3, a4, a5, a6, a7, a8]"
  using valid_state_length [OF assms] by (auto simp: length_Suc_conv eval_nat_numeral)

lemma is_solvable_move:
  assumes "valid_state st" "is_move st (s', m)"
  shows "is_solvable s' = is_solvable st"
proof -
  obtain a0 a1 a2 a3 a4 a5 a6 a7 a8 where st: "st = [a0, a1, a2, a3, a4, a5, a6, a7, a8]"
    using assms(1) by (rule valid_state_explicit)
  have d: "distinct [a0, a1, a2, a3, a4, a5, a6, a7, a8]"
    using valid_state_distinct [OF assms(1)] st by simp
  have b: "blank_cell st < 9" "st ! blank_cell st = 0"
    using valid_state_blank [OF assms(1)] by simp_all
  note mv = assms(2) [unfolded is_move_iff [OF assms(1)]]
  from b(1) consider 
    (b0) "blank_cell st = 0" | (b1) "blank_cell st = 1" | (b2) "blank_cell st = 2" | (b3) "blank_cell st = 3" | (b4) "blank_cell st = 4" | (b5) "blank_cell st = 5" | (b6) "blank_cell st = 6" | (b7) "blank_cell st = 7" | (b8) "blank_cell st = 8"
    by linarith
  then show ?thesis
  proof cases
    case b0
    have z: "a0 = 0" using b(2) st b0 by simp
    have nz: "a1 \<noteq> 0" "a2 \<noteq> 0" "a3 \<noteq> 0" "a4 \<noteq> 0" "a5 \<noteq> 0" "a6 \<noteq> 0" "a7 \<noteq> 0" "a8 \<noteq> 0" using d z by auto
    from mv consider (t3) "s' = swap_cells st 0 3" | (t1) "s' = swap_cells st 0 1"
      unfolding b0 by (auto simp: numeral_2_eq_2)
    then show ?thesis
    proof cases
      case t3
      have ne: "a3 \<noteq> a1" "a3 \<noteq> a2" using d by auto
      have "even (inv_count ([] @ a3 # a1 # a2 # [a4, a5, a6, a7, a8])) \<longleftrightarrow> even (inv_count ([] @ a1 # a2 # a3 # [a4, a5, a6, a7, a8]))"
        using ne by (rule inv_count_pass_two)
      then show ?thesis unfolding t3 st z using nz
        by (simp add: is_solvable_inv_count non_blank_tiles_def swap_cells_def del: inv_count.simps)
    next
      case t1
      show ?thesis unfolding t1 st z using nz
        by (simp add: is_solvable_inv_count non_blank_tiles_def swap_cells_def del: inv_count.simps)
    qed
  next
    case b1
    have z: "a1 = 0" using b(2) st b1 by simp
    have nz: "a0 \<noteq> 0" "a2 \<noteq> 0" "a3 \<noteq> 0" "a4 \<noteq> 0" "a5 \<noteq> 0" "a6 \<noteq> 0" "a7 \<noteq> 0" "a8 \<noteq> 0" using d z by auto
    from mv consider (t4) "s' = swap_cells st 1 4" | (t0) "s' = swap_cells st 1 0" | (t2) "s' = swap_cells st 1 2"
      unfolding b1 by (auto simp: numeral_2_eq_2)
    then show ?thesis
    proof cases
      case t4
      have ne: "a4 \<noteq> a2" "a4 \<noteq> a3" using d by auto
      have "even (inv_count ([a0] @ a4 # a2 # a3 # [a5, a6, a7, a8])) \<longleftrightarrow> even (inv_count ([a0] @ a2 # a3 # a4 # [a5, a6, a7, a8]))"
        using ne by (rule inv_count_pass_two)
      then show ?thesis unfolding t4 st z using nz
        by (simp add: is_solvable_inv_count non_blank_tiles_def swap_cells_def del: inv_count.simps)
    next
      case t0
      show ?thesis unfolding t0 st z using nz
        by (simp add: is_solvable_inv_count non_blank_tiles_def swap_cells_def del: inv_count.simps)
    next
      case t2
      show ?thesis unfolding t2 st z using nz
        by (simp add: is_solvable_inv_count non_blank_tiles_def swap_cells_def del: inv_count.simps)
    qed
  next
    case b2
    have z: "a2 = 0" using b(2) st b2 by simp
    have nz: "a0 \<noteq> 0" "a1 \<noteq> 0" "a3 \<noteq> 0" "a4 \<noteq> 0" "a5 \<noteq> 0" "a6 \<noteq> 0" "a7 \<noteq> 0" "a8 \<noteq> 0" using d z by auto
    from mv consider (t5) "s' = swap_cells st 2 5" | (t1) "s' = swap_cells st 2 1"
      unfolding b2 by (auto simp: numeral_2_eq_2)
    then show ?thesis
    proof cases
      case t5
      have ne: "a5 \<noteq> a3" "a5 \<noteq> a4" using d by auto
      have "even (inv_count ([a0, a1] @ a5 # a3 # a4 # [a6, a7, a8])) \<longleftrightarrow> even (inv_count ([a0, a1] @ a3 # a4 # a5 # [a6, a7, a8]))"
        using ne by (rule inv_count_pass_two)
      then show ?thesis unfolding t5 st z using nz
        by (simp add: is_solvable_inv_count non_blank_tiles_def swap_cells_def del: inv_count.simps)
    next
      case t1
      show ?thesis unfolding t1 st z using nz
        by (simp add: is_solvable_inv_count non_blank_tiles_def swap_cells_def del: inv_count.simps)
    qed
  next
    case b3
    have z: "a3 = 0" using b(2) st b3 by simp
    have nz: "a0 \<noteq> 0" "a1 \<noteq> 0" "a2 \<noteq> 0" "a4 \<noteq> 0" "a5 \<noteq> 0" "a6 \<noteq> 0" "a7 \<noteq> 0" "a8 \<noteq> 0" using d z by auto
    from mv consider (t0) "s' = swap_cells st 3 0" | (t6) "s' = swap_cells st 3 6" | (t4) "s' = swap_cells st 3 4"
      unfolding b3 by (auto simp: numeral_2_eq_2)
    then show ?thesis
    proof cases
      case t0
      have ne: "a0 \<noteq> a1" "a0 \<noteq> a2" using d by auto
      have "even (inv_count ([] @ a0 # a1 # a2 # [a4, a5, a6, a7, a8])) \<longleftrightarrow> even (inv_count ([] @ a1 # a2 # a0 # [a4, a5, a6, a7, a8]))"
        using ne by (rule inv_count_pass_two)
      then show ?thesis unfolding t0 st z using nz
        by (simp add: is_solvable_inv_count non_blank_tiles_def swap_cells_def del: inv_count.simps)
    next
      case t6
      have ne: "a6 \<noteq> a4" "a6 \<noteq> a5" using d by auto
      have "even (inv_count ([a0, a1, a2] @ a6 # a4 # a5 # [a7, a8])) \<longleftrightarrow> even (inv_count ([a0, a1, a2] @ a4 # a5 # a6 # [a7, a8]))"
        using ne by (rule inv_count_pass_two)
      then show ?thesis unfolding t6 st z using nz
        by (simp add: is_solvable_inv_count non_blank_tiles_def swap_cells_def del: inv_count.simps)
    next
      case t4
      show ?thesis unfolding t4 st z using nz
        by (simp add: is_solvable_inv_count non_blank_tiles_def swap_cells_def del: inv_count.simps)
    qed
  next
    case b4
    have z: "a4 = 0" using b(2) st b4 by simp
    have nz: "a0 \<noteq> 0" "a1 \<noteq> 0" "a2 \<noteq> 0" "a3 \<noteq> 0" "a5 \<noteq> 0" "a6 \<noteq> 0" "a7 \<noteq> 0" "a8 \<noteq> 0" using d z by auto
    from mv consider (t1) "s' = swap_cells st 4 1" | (t7) "s' = swap_cells st 4 7" | (t3) "s' = swap_cells st 4 3" | (t5) "s' = swap_cells st 4 5"
      unfolding b4 by (auto simp: numeral_2_eq_2)
    then show ?thesis
    proof cases
      case t1
      have ne: "a1 \<noteq> a2" "a1 \<noteq> a3" using d by auto
      have "even (inv_count ([a0] @ a1 # a2 # a3 # [a5, a6, a7, a8])) \<longleftrightarrow> even (inv_count ([a0] @ a2 # a3 # a1 # [a5, a6, a7, a8]))"
        using ne by (rule inv_count_pass_two)
      then show ?thesis unfolding t1 st z using nz
        by (simp add: is_solvable_inv_count non_blank_tiles_def swap_cells_def del: inv_count.simps)
    next
      case t7
      have ne: "a7 \<noteq> a5" "a7 \<noteq> a6" using d by auto
      have "even (inv_count ([a0, a1, a2, a3] @ a7 # a5 # a6 # [a8])) \<longleftrightarrow> even (inv_count ([a0, a1, a2, a3] @ a5 # a6 # a7 # [a8]))"
        using ne by (rule inv_count_pass_two)
      then show ?thesis unfolding t7 st z using nz
        by (simp add: is_solvable_inv_count non_blank_tiles_def swap_cells_def del: inv_count.simps)
    next
      case t3
      show ?thesis unfolding t3 st z using nz
        by (simp add: is_solvable_inv_count non_blank_tiles_def swap_cells_def del: inv_count.simps)
    next
      case t5
      show ?thesis unfolding t5 st z using nz
        by (simp add: is_solvable_inv_count non_blank_tiles_def swap_cells_def del: inv_count.simps)
    qed
  next
    case b5
    have z: "a5 = 0" using b(2) st b5 by simp
    have nz: "a0 \<noteq> 0" "a1 \<noteq> 0" "a2 \<noteq> 0" "a3 \<noteq> 0" "a4 \<noteq> 0" "a6 \<noteq> 0" "a7 \<noteq> 0" "a8 \<noteq> 0" using d z by auto
    from mv consider (t2) "s' = swap_cells st 5 2" | (t8) "s' = swap_cells st 5 8" | (t4) "s' = swap_cells st 5 4"
      unfolding b5 by (auto simp: numeral_2_eq_2)
    then show ?thesis
    proof cases
      case t2
      have ne: "a2 \<noteq> a3" "a2 \<noteq> a4" using d by auto
      have "even (inv_count ([a0, a1] @ a2 # a3 # a4 # [a6, a7, a8])) \<longleftrightarrow> even (inv_count ([a0, a1] @ a3 # a4 # a2 # [a6, a7, a8]))"
        using ne by (rule inv_count_pass_two)
      then show ?thesis unfolding t2 st z using nz
        by (simp add: is_solvable_inv_count non_blank_tiles_def swap_cells_def del: inv_count.simps)
    next
      case t8
      have ne: "a8 \<noteq> a6" "a8 \<noteq> a7" using d by auto
      have "even (inv_count ([a0, a1, a2, a3, a4] @ a8 # a6 # a7 # [])) \<longleftrightarrow> even (inv_count ([a0, a1, a2, a3, a4] @ a6 # a7 # a8 # []))"
        using ne by (rule inv_count_pass_two)
      then show ?thesis unfolding t8 st z using nz
        by (simp add: is_solvable_inv_count non_blank_tiles_def swap_cells_def del: inv_count.simps)
    next
      case t4
      show ?thesis unfolding t4 st z using nz
        by (simp add: is_solvable_inv_count non_blank_tiles_def swap_cells_def del: inv_count.simps)
    qed
  next
    case b6
    have z: "a6 = 0" using b(2) st b6 by simp
    have nz: "a0 \<noteq> 0" "a1 \<noteq> 0" "a2 \<noteq> 0" "a3 \<noteq> 0" "a4 \<noteq> 0" "a5 \<noteq> 0" "a7 \<noteq> 0" "a8 \<noteq> 0" using d z by auto
    from mv consider (t3) "s' = swap_cells st 6 3" | (t7) "s' = swap_cells st 6 7"
      unfolding b6 by (auto simp: numeral_2_eq_2)
    then show ?thesis
    proof cases
      case t3
      have ne: "a3 \<noteq> a4" "a3 \<noteq> a5" using d by auto
      have "even (inv_count ([a0, a1, a2] @ a3 # a4 # a5 # [a7, a8])) \<longleftrightarrow> even (inv_count ([a0, a1, a2] @ a4 # a5 # a3 # [a7, a8]))"
        using ne by (rule inv_count_pass_two)
      then show ?thesis unfolding t3 st z using nz
        by (simp add: is_solvable_inv_count non_blank_tiles_def swap_cells_def del: inv_count.simps)
    next
      case t7
      show ?thesis unfolding t7 st z using nz
        by (simp add: is_solvable_inv_count non_blank_tiles_def swap_cells_def del: inv_count.simps)
    qed
  next
    case b7
    have z: "a7 = 0" using b(2) st b7 by simp
    have nz: "a0 \<noteq> 0" "a1 \<noteq> 0" "a2 \<noteq> 0" "a3 \<noteq> 0" "a4 \<noteq> 0" "a5 \<noteq> 0" "a6 \<noteq> 0" "a8 \<noteq> 0" using d z by auto
    from mv consider (t4) "s' = swap_cells st 7 4" | (t6) "s' = swap_cells st 7 6" | (t8) "s' = swap_cells st 7 8"
      unfolding b7 by (auto simp: numeral_2_eq_2)
    then show ?thesis
    proof cases
      case t4
      have ne: "a4 \<noteq> a5" "a4 \<noteq> a6" using d by auto
      have "even (inv_count ([a0, a1, a2, a3] @ a4 # a5 # a6 # [a8])) \<longleftrightarrow> even (inv_count ([a0, a1, a2, a3] @ a5 # a6 # a4 # [a8]))"
        using ne by (rule inv_count_pass_two)
      then show ?thesis unfolding t4 st z using nz
        by (simp add: is_solvable_inv_count non_blank_tiles_def swap_cells_def del: inv_count.simps)
    next
      case t6
      show ?thesis unfolding t6 st z using nz
        by (simp add: is_solvable_inv_count non_blank_tiles_def swap_cells_def del: inv_count.simps)
    next
      case t8
      show ?thesis unfolding t8 st z using nz
        by (simp add: is_solvable_inv_count non_blank_tiles_def swap_cells_def del: inv_count.simps)
    qed
  next
    case b8
    have z: "a8 = 0" using b(2) st b8 by simp
    have nz: "a0 \<noteq> 0" "a1 \<noteq> 0" "a2 \<noteq> 0" "a3 \<noteq> 0" "a4 \<noteq> 0" "a5 \<noteq> 0" "a6 \<noteq> 0" "a7 \<noteq> 0" using d z by auto
    from mv consider (t5) "s' = swap_cells st 8 5" | (t7) "s' = swap_cells st 8 7"
      unfolding b8 by (auto simp: numeral_2_eq_2)
    then show ?thesis
    proof cases
      case t5
      have ne: "a5 \<noteq> a6" "a5 \<noteq> a7" using d by auto
      have "even (inv_count ([a0, a1, a2, a3, a4] @ a5 # a6 # a7 # [])) \<longleftrightarrow> even (inv_count ([a0, a1, a2, a3, a4] @ a6 # a7 # a5 # []))"
        using ne by (rule inv_count_pass_two)
      then show ?thesis unfolding t5 st z using nz
        by (simp add: is_solvable_inv_count non_blank_tiles_def swap_cells_def del: inv_count.simps)
    next
      case t7
      show ?thesis unfolding t7 st z using nz
        by (simp add: is_solvable_inv_count non_blank_tiles_def swap_cells_def del: inv_count.simps)
    qed
  qed
qed

lemma move_rel_valid: "valid_state s \<Longrightarrow> move_rel s t \<Longrightarrow> valid_state t"
  unfolding move_rel_def by (auto elim: is_move_target)

lemma move_rel_solvable: "valid_state s \<Longrightarrow> move_rel s t \<Longrightarrow> is_solvable t = is_solvable s"
  unfolding move_rel_def by (auto dest: is_solvable_move)

lemma move_rel_sym: "valid_state s \<Longrightarrow> move_rel s t \<Longrightarrow> move_rel t s"
  unfolding move_rel_def by (auto elim: is_move_target)

lemma reachable_valid_solvable:
  assumes "reachable s t" "valid_state s"
  shows "valid_state t \<and> is_solvable t = is_solvable s"
  using assms unfolding reachable_def
proof (induction rule: rtranclp_induct)
  case base
  then show ?case by simp
next
  case (step y z)
  then show ?case using move_rel_valid [of y z] move_rel_solvable [of y z] by simp
qed

lemma reachable_refl: "reachable s s"
  by (simp add: reachable_def)

lemma reachable_step: "reachable s t \<Longrightarrow> move_rel t u \<Longrightarrow> reachable s u"
  by (simp add: reachable_def)

lemma reachable_trans: "reachable s t \<Longrightarrow> reachable t u \<Longrightarrow> reachable s u"
  by (simp add: reachable_def)

lemma reachable_sym:
  assumes "reachable s t" "valid_state s"
  shows "reachable t s"
  using assms unfolding reachable_def
proof (induction rule: rtranclp_induct)
  case base
  show ?case by simp
next
  case (step y z)
  then have "valid_state y" using reachable_valid_solvable [of s y] by (simp add: reachable_def)
  with step have "move_rel z y" by (simp add: move_rel_sym)
  with step show ?case by (simp add: converse_rtranclp_into_rtranclp)
qed

text \<open>
  Claim C10. Solvability is invariant under transitions: every successor of a well-formed
  state has the same solvability as the state itself, and so has every state that a
  sequence of moves leads to.
\<close>

theorem is_solvable_invariant:
  assumes "valid_state s"
  shows "(\<forall>ms s' m. get_possible_moves s = Inr ms \<longrightarrow> (s', m) \<in> set ms \<longrightarrow>
            is_solvable s' = is_solvable s) \<and>
         (\<forall>t. reachable s t \<longrightarrow> is_solvable t = is_solvable s)"
proof (intro conjI allI impI)
  fix ms s' m
  assume "get_possible_moves s = Inr ms" "(s', m) \<in> set ms"
  then have "is_move s (s', m)" by (simp add: is_move_def)
  with assms show "is_solvable s' = is_solvable s" by (rule is_solvable_move)
next
  fix t
  assume "reachable s t"
  then show "is_solvable t = is_solvable s"
    using assms reachable_valid_solvable by blast
qed

theorem is_solvable_invariant_witness:
  "valid_state [1, 2, 3, 4, 0, 5, 6, 7, 8] \<and>
   get_possible_moves [1, 2, 3, 4, 0, 5, 6, 7, 8] =
     Inr [([1, 0, 3, 4, 2, 5, 6, 7, 8], ''Up''), ([1, 2, 3, 4, 7, 5, 6, 0, 8], ''Down''),
          ([1, 2, 3, 0, 4, 5, 6, 7, 8], ''Left''), ([1, 2, 3, 4, 5, 0, 6, 7, 8], ''Right'')] \<and>
   is_solvable [1, 0, 3, 4, 2, 5, 6, 7, 8] = is_solvable [1, 2, 3, 4, 0, 5, 6, 7, 8] \<and>
   reachable [1, 2, 3, 4, 0, 5, 6, 7, 8] [1, 2, 3, 4, 7, 5, 6, 0, 8] \<and>
   is_solvable [1, 2, 3, 4, 7, 5, 6, 0, 8] = is_solvable [1, 2, 3, 4, 0, 5, 6, 7, 8]"
proof -
  have v: "valid_state [1, 2, 3, 4, 0, 5, 6, 7, 8]"
    by (simp add: valid_state_def)
  have g: "get_possible_moves [1, 2, 3, 4, 0, 5, 6, 7, 8] =
     Inr [([1, 0, 3, 4, 2, 5, 6, 7, 8], ''Up''), ([1, 2, 3, 4, 7, 5, 6, 0, 8], ''Down''),
          ([1, 2, 3, 0, 4, 5, 6, 7, 8], ''Left''), ([1, 2, 3, 4, 5, 0, 6, 7, 8], ''Right'')]"
    by (simp add: get_possible_moves_valid [OF v] successors_spec_def blank_cell_def swap_cells_def)
  have "move_rel [1, 2, 3, 4, 0, 5, 6, 7, 8] [1, 2, 3, 4, 7, 5, 6, 0, 8]"
    unfolding move_rel_def is_move_def g by auto
  then have r: "reachable [1, 2, 3, 4, 0, 5, 6, 7, 8] [1, 2, 3, 4, 7, 5, 6, 0, 8]"
    by (simp add: reachable_def)
  note inv = is_solvable_invariant [OF v]
  have "is_solvable [1, 0, 3, 4, 2, 5, 6, 7, 8] = is_solvable [1, 2, 3, 4, 0, 5, 6, 7, 8]"
    using inv g by simp
  moreover have "is_solvable [1, 2, 3, 4, 7, 5, 6, 0, 8] = is_solvable [1, 2, 3, 4, 0, 5, 6, 7, 8]"
    using inv r by blast
  ultimately show ?thesis using v g r by blast
qed

section \<open>Unsolvable inputs\<close>

lemma is_solvable_even_inversions: "is_solvable st \<longleftrightarrow> even (inversions st)"
  by (simp add: is_solvable_inv_count inversions_def card_inversion_pairs)

text \<open>
  Claim C4. For every initial state with an odd number of inversions among its non-blank
  tiles, each of the four entry points (breadth-first, depth-first, A* with either
  heuristic) returns the unsolvable result: no path, 0 nodes expanded, peak frontier
  size 0.
\<close>

theorem unsolvable_result:
  assumes "odd (inversions initial_state)"
  shows "bfs initial_state = Some (Inr (None, 0, 0)) \<and>
         dfs initial_state = Some (Inr (None, 0, 0)) \<and>
         a_star misplaced_tiles_heuristic initial_state = Some (Inr (None, 0, 0)) \<and>
         a_star manhattan_distance_heuristic initial_state = Some (Inr (None, 0, 0))"
  using assms by (simp add: bfs_def dfs_def a_star_def is_solvable_even_inversions)

theorem unsolvable_result_witness:
  "odd (inversions [1, 2, 3, 4, 5, 6, 8, 7, 0]) \<and>
   bfs [1, 2, 3, 4, 5, 6, 8, 7, 0] = Some (Inr (None, 0, 0)) \<and>
   dfs [1, 2, 3, 4, 5, 6, 8, 7, 0] = Some (Inr (None, 0, 0)) \<and>
   a_star misplaced_tiles_heuristic [1, 2, 3, 4, 5, 6, 8, 7, 0] = Some (Inr (None, 0, 0)) \<and>
   a_star manhattan_distance_heuristic [1, 2, 3, 4, 5, 6, 8, 7, 0] = Some (Inr (None, 0, 0))"
proof -
  have "\<not> is_solvable [1, 2, 3, 4, 5, 6, 8, 7, 0]"
    by (simp add: is_solvable_inv_count non_blank_tiles_def)
  then have o: "odd (inversions [1, 2, 3, 4, 5, 6, 8, 7, 0])"
    by (simp add: is_solvable_even_inversions)
  from unsolvable_result [OF o] o show ?thesis by simp
qed

section \<open>Breadth-first search one step from the goal\<close>

lemma bfs_one_step_run:
  "bfs [1, 2, 3, 4, 5, 6, 7, 0, 8] =
     Some (Inr (Some [([1, 2, 3, 4, 5, 6, 7, 0, 8], Some ''Initial State''),
                      ([1, 2, 3, 4, 5, 6, 7, 8, 0], Some ''Right'')], 4, 5))"
  by code_simp

text \<open>
  Claim C6, as stated: on the initial state (1,2,3,4,5,6,7,0,8) breadth-first search
  returns a path of two elements with 1 node expanded and peak frontier size 1. The
  counters are different: the start node is expanded first, which puts its three
  successors (Up, Left, Right) in the queue; the goal is found only when the third of
  them is dequeued, after the Up and Left nodes have been expanded as well.
\<close>

theorem bfs_one_step_counterexample:
  "\<not> (\<exists>path. bfs [1, 2, 3, 4, 5, 6, 7, 0, 8] = Some (Inr (Some path, 1, 1)) \<and> length path = 2)"
  by (simp add: bfs_one_step_run)

text \<open>
  Claim C6, amended: on the initial state (1,2,3,4,5,6,7,0,8) breadth-first search returns
  the path of exactly one move (two path elements, the move Right), with 4 nodes expanded
  and peak frontier size 5.
\<close>

theorem bfs_one_step:
  "\<exists>path. bfs [1, 2, 3, 4, 5, 6, 7, 0, 8] = Some (Inr (Some path, 4, 5)) \<and> length path = 2 \<and>
     path = [([1, 2, 3, 4, 5, 6, 7, 0, 8], Some ''Initial State''),
             ([1, 2, 3, 4, 5, 6, 7, 8, 0], Some ''Right'')]"
  by (simp add: bfs_one_step_run)

section \<open>The heuristics\<close>

lemma misplaced_loop_sum:
  assumes "\<forall>i\<in>set is. i < length st"
  shows "misplaced_loop st is acc = Inr (acc + sum_list (map (\<lambda>i. misplaced_at i (st ! i)) is))"
  using assms by (induction "is" arbitrary: acc) (auto simp: misplaced_at_def)

lemma manhattan_loop_sum:
  assumes "\<forall>i\<in>set is. i < length st \<and> st ! i \<in> set goal_state"
  shows "manhattan_loop st is acc = Inr (acc + sum_list (map (\<lambda>i. tile_distance i (st ! i)) is))"
  using assms
proof (induction "is" arbitrary: acc)
  case Nil
  show ?case by simp
next
  case (Cons i "is")
  then have i: "i < length st" "st ! i \<in> set goal_state" by simp_all
  then obtain g where g: "tuple_index goal_state (st ! i) = Inr g"
    using tuple_index_Inl_iff [of goal_state "st ! i"] by (cases "tuple_index goal_state (st ! i)") auto
  show ?case
    using Cons i g by (simp add: tile_distance_def Let_def)
qed

lemma valid_state_nth_goal:
  assumes "valid_state st" "i < 9"
  shows "st ! i \<in> set goal_state"
proof -
  have "st ! i \<in> set st" using assms valid_state_length [OF assms(1)] by simp
  then show ?thesis using valid_state_set [OF assms(1)] by (auto simp: goal_state_def)
qed

lemma misplaced_tiles_heuristic_valid:
  assumes "valid_state st"
  shows "misplaced_tiles_heuristic st = Inr (\<Sum>i<9. misplaced_at i (st ! i))"
proof -
  have "misplaced_tiles_heuristic st = Inr (sum_list (map (\<lambda>i. misplaced_at i (st ! i)) [0 ..< 9]))"
    unfolding misplaced_tiles_heuristic_def
    using valid_state_length [OF assms] by (subst misplaced_loop_sum) simp_all
  then show ?thesis
    by (simp add: interv_sum_list_conv_sum_set_nat lessThan_atLeast0)
qed

lemma manhattan_distance_heuristic_valid:
  assumes "valid_state st"
  shows "manhattan_distance_heuristic st = Inr (\<Sum>i<9. tile_distance i (st ! i))"
proof -
  have "manhattan_distance_heuristic st = Inr (sum_list (map (\<lambda>i. tile_distance i (st ! i)) [0 ..< 9]))"
    unfolding manhattan_distance_heuristic_def
    using valid_state_length [OF assms] valid_state_nth_goal [OF assms]
    by (subst manhattan_loop_sum) simp_all
  then show ?thesis
    by (simp add: interv_sum_list_conv_sum_set_nat lessThan_atLeast0)
qed

lemma sum_swap_cells:
  fixes f :: "nat \<Rightarrow> int \<Rightarrow> nat"
  assumes "i < length st" "j < length st" "i \<noteq> j"
  shows "(\<Sum>k<length st. f k (swap_cells st i j ! k)) + f i (st ! i) + f j (st ! j)
       = (\<Sum>k<length st. f k (st ! k)) + f i (st ! j) + f j (st ! i)"
proof -
  let ?R = "{..<length st} - {i} - {j}"
  have split: "(\<Sum>k<length st. g k) = g i + (g j + sum g ?R)" for g :: "nat \<Rightarrow> nat"
  proof -
    have "(\<Sum>k<length st. g k) = g i + sum g ({..<length st} - {i})"
      using assms(1) by (intro sum.remove) simp_all
    also have "sum g ({..<length st} - {i}) = g j + sum g ?R"
      using assms(2,3) by (intro sum.remove) simp_all
    finally show ?thesis .
  qed
  have rest: "(\<Sum>k\<in>?R. f k (swap_cells st i j ! k)) = (\<Sum>k\<in>?R. f k (st ! k))"
    by (rule sum.cong) (use assms in \<open>simp_all add: swap_cells_nth\<close>)
  have ij: "swap_cells st i j ! i = st ! j" "swap_cells st i j ! j = st ! i"
    using assms by (simp_all add: swap_cells_nth)
  show ?thesis
    unfolding split [of "\<lambda>k. f k (swap_cells st i j ! k)"] split [of "\<lambda>k. f k (st ! k)"]
      rest ij
    by simp
qed

lemma tuple_index_goal:
  assumes "1 \<le> x" "x \<le> 8"
  shows "tuple_index goal_state x = Inr (nat (x - 1))"
proof -
  from assms consider "x = 1" | "x = 2" | "x = 3" | "x = 4" | "x = 5" | "x = 6" | "x = 7" | "x = 8"
    by linarith
  then show ?thesis by cases (simp_all add: goal_state_def)
qed

lemma tile_distance_goal:
  assumes "1 \<le> x" "x \<le> 8"
  shows "tile_distance i x =
     nat \<bar>int (i div 3) - int (nat (x - 1) div 3)\<bar> + nat \<bar>int (i mod 3) - int (nat (x - 1) mod 3)\<bar>"
  using assms by (simp add: tile_distance_def tuple_index_goal cols_def)

lemma tile_distance_blank [simp]: "tile_distance i 0 = 0"
  by (simp add: tile_distance_def)

lemma misplaced_at_blank [simp]: "misplaced_at i 0 = 0"
  by (simp add: misplaced_at_def)

lemma misplaced_at_le: "misplaced_at i x \<le> 1"
  by (simp add: misplaced_at_def)

text \<open>Two cells are neighbours in the grid: one above the other, or side by side in a row.\<close>

lemma abs_step_row:
  fixes r g :: int and k :: nat
  shows "\<bar>int (nat \<bar>r + 1 - g\<bar> + k) - int (nat \<bar>r - g\<bar> + k)\<bar> \<le> 1"
  by linarith

lemma abs_step_col:
  fixes c h :: int and k :: nat
  shows "\<bar>int (k + nat \<bar>c + 1 - h\<bar>) - int (k + nat \<bar>c - h\<bar>)\<bar> \<le> 1"
  by linarith

lemma tile_distance_vertical:
  assumes "1 \<le> x" "x \<le> 8"
  shows "\<bar>int (tile_distance (b + 3) x) - int (tile_distance b x)\<bar> \<le> 1"
proof -
  have "int ((b + 3) div 3) = int (b div 3) + 1" "(b + 3) mod 3 = b mod 3" by simp_all
  then show ?thesis
    unfolding tile_distance_goal [OF assms] using abs_step_row by presburger
qed

lemma tile_distance_horizontal:
  assumes "1 \<le> x" "x \<le> 8" "b mod 3 \<noteq> 2"
  shows "\<bar>int (tile_distance (b + 1) x) - int (tile_distance b x)\<bar> \<le> 1"
proof -
  have "(b + 1) div 3 = b div 3" "int ((b + 1) mod 3) = int (b mod 3) + 1"
    using assms(3) by (auto simp: div_Suc mod_Suc)
  then show ?thesis
    unfolding tile_distance_goal [OF assms(1,2)] using abs_step_col by presburger
qed

lemma is_move_neighbour:
  assumes "valid_state s" "is_move s (s', m)"
  obtains b t where "b < 9" "t < 9" "b \<noteq> t" "s ! b = 0" "1 \<le> s ! t" "s ! t \<le> 8"
    "s' = swap_cells s b t"
    "t = b + 3 \<or> b = t + 3 \<or> (t = b + 1 \<and> b mod 3 \<noteq> 2) \<or> (b = t + 1 \<and> t mod 3 \<noteq> 2)"
proof -
  let ?b = "blank_cell s"
  have b: "?b < 9" "s ! ?b = 0" and len: "length s = 9"
    using valid_state_blank [OF assms(1)] valid_state_length [OF assms(1)] by simp_all
  have tile: "1 \<le> s ! t \<and> s ! t \<le> 8" if "t < 9" "t \<noteq> ?b" for t
  proof -
    have "s ! t \<noteq> s ! ?b"
      using that b(1) len valid_state_distinct [OF assms(1)] by (simp add: nth_eq_iff_index_eq)
    moreover have "s ! t \<in> {0, 1, 2, 3, 4, 5, 6, 7, 8}"
      using that len valid_state_set [OF assms(1)] nth_mem [of t s] by simp
    ultimately show ?thesis using b(2) by auto
  qed
  from assms(2) [unfolded is_move_iff [OF assms(1)]]
  consider (up) "3 \<le> ?b" "s' = swap_cells s ?b (?b - 3)"
    | (down) "?b < 6" "s' = swap_cells s ?b (?b + 3)"
    | (left) "?b mod 3 \<noteq> 0" "s' = swap_cells s ?b (?b - 1)"
    | (right) "?b mod 3 \<noteq> 2" "s' = swap_cells s ?b (?b + 1)"
    by blast
  then show ?thesis
  proof cases
    case up
    have t: "?b - 3 < 9" "?b \<noteq> ?b - 3" "?b = (?b - 3) + 3" using up(1) b(1) by simp_all
    show ?thesis
      by (rule that [OF b(1) t(1,2) b(2) _ _ up(2)]) (use tile [of "?b - 3"] t in auto)
  next
    case down
    have t: "?b + 3 < 9" "?b \<noteq> ?b + 3" using down(1) by simp_all
    show ?thesis
      by (rule that [OF b(1) t(1,2) b(2) _ _ down(2)]) (use tile [of "?b + 3"] t in auto)
  next
    case left
    have t: "?b - 1 < 9" "?b \<noteq> ?b - 1" "?b = (?b - 1) + 1" "(?b - 1) mod 3 \<noteq> 2"
      using left_cell [OF left(1)] b(1) by simp_all
    show ?thesis
      by (rule that [OF b(1) t(1,2) b(2) _ _ left(2)]) (use tile [of "?b - 1"] t in auto)
  next
    case right
    have "?b \<noteq> 8" using right(1) by auto
    then have t: "?b + 1 < 9" "?b \<noteq> ?b + 1" using b(1) by simp_all
    show ?thesis
      by (rule that [OF b(1) t(1,2) b(2) _ _ right(2)]) (use tile [of "?b + 1"] t right(1) in auto)
  qed
qed

lemma misplaced_step:
  assumes "valid_state s" "is_move s (s', m)"
  shows "\<bar>int (\<Sum>i<9. misplaced_at i (s' ! i)) - int (\<Sum>i<9. misplaced_at i (s ! i))\<bar> \<le> 1"
proof -
  from assms obtain b t where bt: "b < 9" "t < 9" "b \<noteq> t" "s ! b = 0" "s' = swap_cells s b t"
    by (rule is_move_neighbour)
  have len: "length s = 9" using assms(1) by (rule valid_state_length)
  have "(\<Sum>k<9. misplaced_at k (s' ! k)) + misplaced_at t (s ! t)
      = (\<Sum>k<9. misplaced_at k (s ! k)) + misplaced_at b (s ! t)"
    using sum_swap_cells [of b s t misplaced_at] bt len by simp
  moreover have "misplaced_at t (s ! t) \<le> 1" "misplaced_at b (s ! t) \<le> 1"
    by (rule misplaced_at_le)+
  ultimately show ?thesis by linarith
qed

lemma manhattan_step:
  assumes "valid_state s" "is_move s (s', m)"
  shows "\<bar>int (\<Sum>i<9. tile_distance i (s' ! i)) - int (\<Sum>i<9. tile_distance i (s ! i))\<bar> \<le> 1"
proof -
  from assms obtain b t where bt: "b < 9" "t < 9" "b \<noteq> t" "s ! b = 0" "s' = swap_cells s b t"
    and x: "1 \<le> s ! t" "s ! t \<le> 8"
    and adj: "t = b + 3 \<or> b = t + 3 \<or> (t = b + 1 \<and> b mod 3 \<noteq> 2) \<or> (b = t + 1 \<and> t mod 3 \<noteq> 2)"
    by (rule is_move_neighbour)
  have len: "length s = 9" using assms(1) by (rule valid_state_length)
  have eq: "(\<Sum>k<9. tile_distance k (s' ! k)) + tile_distance t (s ! t)
      = (\<Sum>k<9. tile_distance k (s ! k)) + tile_distance b (s ! t)"
    using sum_swap_cells [of b s t tile_distance] bt len by simp
  have "\<bar>int (tile_distance b (s ! t)) - int (tile_distance t (s ! t))\<bar> \<le> 1"
    using adj tile_distance_vertical [OF x, of b] tile_distance_vertical [OF x, of t]
      tile_distance_horizontal [OF x, of b] tile_distance_horizontal [OF x, of t]
    by (elim disjE conjE) (simp_all add: abs_minus_commute)
  with eq show ?thesis by linarith
qed

text \<open>
  Claim C8. Both heuristics are consistent with unit move cost: for every well-formed state
  \<open>s\<close> and every successor \<open>(s', m)\<close> of it, the values of the misplaced-tiles
  heuristic at \<open>s\<close> and \<open>s'\<close> differ by at most 1, and so do the values of the
  Manhattan-distance heuristic.
\<close>

theorem heuristics_consistent:
  assumes "valid_state s" "get_possible_moves s = Inr ms" "(s', m) \<in> set ms"
  shows "(\<exists>h h'. misplaced_tiles_heuristic s = Inr h \<and> misplaced_tiles_heuristic s' = Inr h' \<and>
            \<bar>int h - int h'\<bar> \<le> 1) \<and>
         (\<exists>h h'. manhattan_distance_heuristic s = Inr h \<and> manhattan_distance_heuristic s' = Inr h' \<and>
            \<bar>int h - int h'\<bar> \<le> 1)"
proof -
  have mv: "is_move s (s', m)" using assms(2,3) by (simp add: is_move_def)
  then have v': "valid_state s'" using assms(1) by (auto elim: is_move_target)
  show ?thesis
    using misplaced_step [OF assms(1) mv] manhattan_step [OF assms(1) mv]
    by (simp add: misplaced_tiles_heuristic_valid manhattan_distance_heuristic_valid assms(1) v'
        abs_minus_commute)
qed

theorem heuristics_consistent_witness:
  "valid_state [1, 2, 3, 4, 0, 5, 6, 7, 8] \<and>
   get_possible_moves [1, 2, 3, 4, 0, 5, 6, 7, 8] =
     Inr [([1, 0, 3, 4, 2, 5, 6, 7, 8], ''Up''), ([1, 2, 3, 4, 7, 5, 6, 0, 8], ''Down''),
          ([1, 2, 3, 0, 4, 5, 6, 7, 8], ''Left''), ([1, 2, 3, 4, 5, 0, 6, 7, 8], ''Right'')] \<and>
   (\<exists>h h'. misplaced_tiles_heuristic [1, 2, 3, 4, 0, 5, 6, 7, 8] = Inr h \<and>
      misplaced_tiles_heuristic [1, 0, 3, 4, 2, 5, 6, 7, 8] = Inr h' \<and> \<bar>int h - int h'\<bar> \<le> 1) \<and>
   (\<exists>h h'. manhattan_distance_heuristic [1, 2, 3, 4, 0, 5, 6, 7, 8] = Inr h \<and>
      manhattan_distance_heuristic [1, 0, 3, 4, 2, 5, 6, 7, 8] = Inr h' \<and> \<bar>int h - int h'\<bar> \<le> 1)"
proof -
  have v: "valid_state [1, 2, 3, 4, 0, 5, 6, 7, 8]"
    by (simp add: valid_state_def)
  have g: "get_possible_moves [1, 2, 3, 4, 0, 5, 6, 7, 8] =
     Inr [([1, 0, 3, 4, 2, 5, 6, 7, 8], ''Up''), ([1, 2, 3, 4, 7, 5, 6, 0, 8], ''Down''),
          ([1, 2, 3, 0, 4, 5, 6, 7, 8], ''Left''), ([1, 2, 3, 4, 5, 0, 6, 7, 8], ''Right'')]"
    by (simp add: get_possible_moves_valid [OF v] successors_spec_def blank_cell_def swap_cells_def)
  have "([1, 0, 3, 4, 2, 5, 6, 7, 8], ''Up'') \<in>
     set [([1, 0, 3, 4, 2, 5, 6, 7, 8], ''Up''), ([1, 2, 3, 4, 7, 5, 6, 0, 8], ''Down''),
          ([1, 2, 3, 0, 4, 5, 6, 7, 8], ''Left''), ([1, 2, 3, 4, 5, 0, 6, 7, 8], ''Right'')]"
    by simp
  from heuristics_consistent [OF v g this] v g show ?thesis by blast
qed

section \<open>Nodes and paths\<close>

lemma get_path_root [simp]: "get_path (Node st None act c) = [(st, Some ''Initial State'')]"
  by (simp add: get_path_def)

lemma get_path_child [simp]:
  "get_path (Node st (Some p) act c) = get_path p @ [(st, act)]"
  by (simp add: get_path_def)

lemma is_move_iff_moves:
  "is_move s (t, m) \<longleftrightarrow> (\<exists>ms. get_possible_moves s = Inr ms \<and> (t, m) \<in> set ms)"
  by (auto simp: is_move_def split: sum.splits)

lemma node_ok_path:
  assumes "node_ok init n"
  shows "move_path init (get_path n) \<and> fst (last (get_path n)) = state n \<and>
         length (get_path n) = cost n + 1"
  using assms
proof (induction rule: node_ok.induct)
  case root
  show ?case by (simp add: move_path_def)
next
  case (child p s a)
  let ?pp = "get_path p"
  from child.IH have mp: "move_path init ?pp" and lst: "fst (last ?pp) = state p"
    and len: "length ?pp = cost p + 1"
    by auto
  have ne: "?pp \<noteq> []" using mp by (simp add: move_path_def)
  have "move_path init (?pp @ [(s, Some a)])"
    unfolding move_path_def
  proof (intro conjI allI impI)
    show "?pp @ [(s, Some a)] \<noteq> []" by simp
    show "hd (?pp @ [(s, Some a)]) = (init, Some ''Initial State'')"
      using mp ne by (simp add: move_path_def)
  next
    fix i
    assume i: "Suc i < length (?pp @ [(s, Some a)])"
    show "\<exists>ms m. get_possible_moves (fst ((?pp @ [(s, Some a)]) ! i)) = Inr ms \<and>
            snd ((?pp @ [(s, Some a)]) ! Suc i) = Some m \<and>
            (fst ((?pp @ [(s, Some a)]) ! Suc i), m) \<in> set ms"
    proof (cases "Suc i < length ?pp")
      case True
      then show ?thesis using mp by (simp add: move_path_def nth_append)
    next
      case False
      with i have e: "length ?pp = Suc i" by simp
      have "(?pp @ [(s, Some a)]) ! i = last ?pp"
        using ne by (simp add: nth_append last_conv_nth e)
      moreover have "(?pp @ [(s, Some a)]) ! Suc i = (s, Some a)"
        by (simp add: nth_append e)
      ultimately show ?thesis
        using child.hyps(2) lst by (simp add: is_move_iff_moves)
    qed
  qed
  then show ?case using len by simp
qed

lemma node_ok_move_path: "node_ok init n \<Longrightarrow> move_path init (get_path n)"
  using node_ok_path by blast

lemma node_ok_last: "node_ok init n \<Longrightarrow> fst (last (get_path n)) = state n"
  using node_ok_path by blast

lemma node_ok_length: "node_ok init n \<Longrightarrow> length (get_path n) = cost n + 1"
  using node_ok_path by blast

lemma node_ok_goal_solution:
  "node_ok init n \<Longrightarrow> is_goal (state n) \<Longrightarrow> solution_path init (get_path n)"
  by (simp add: solution_path_def node_ok_move_path node_ok_last is_goal_def)

section \<open>Every returned path is a solution path\<close>

lemma bfs_expand_node_ok:
  assumes "node_ok init cur" "\<forall>sa\<in>set ms. is_move (state cur) sa" "\<forall>n\<in>set q. node_ok init n"
  shows "\<forall>n\<in>set (fst (bfs_expand cur ms (q, v))). node_ok init n"
  using assms
proof (induction ms arbitrary: q v)
  case Nil
  then show ?case by simp
next
  case (Cons sa ms)
  obtain s a where sa: "sa = (s, a)" by (cases sa)
  have n: "node_ok init (Node s (Some cur) (Some a) (cost cur + 1))"
    using node_ok.child [of init cur s a] Cons.prems(1,2) sa by simp
  have rest: "\<forall>sa\<in>set ms. is_move (state cur) sa" using Cons.prems(2) by simp
  show ?case
  proof (cases "s \<in> v")
    case True
    then show ?thesis
      using Cons.IH [OF Cons.prems(1) rest Cons.prems(3)] by (simp add: sa)
  next
    case False
    have "\<forall>n\<in>set (q @ [Node s (Some cur) (Some a) (cost cur + 1)]). node_ok init n"
      using n Cons.prems(3) by simp
    from Cons.IH [OF Cons.prems(1) rest this] False show ?thesis by (simp add: sa)
  qed
qed

lemma dfs_expand_node_ok:
  assumes "node_ok init cur" "\<forall>sa\<in>set ms. is_move (state cur) sa" "\<forall>n\<in>set st. node_ok init n"
  shows "\<forall>n\<in>set (dfs_expand cur ms v st). node_ok init n"
  using assms
proof (induction ms arbitrary: st)
  case Nil
  then show ?case by simp
next
  case (Cons sa ms)
  obtain s a where sa: "sa = (s, a)" by (cases sa)
  have n: "node_ok init (Node s (Some cur) (Some a) (cost cur + 1))"
    using node_ok.child [of init cur s a] Cons.prems(1,2) sa by simp
  have rest: "\<forall>sa\<in>set ms. is_move (state cur) sa" using Cons.prems(2) by simp
  show ?case
  proof (cases "s \<in> v")
    case True
    then show ?thesis
      using Cons.IH [OF Cons.prems(1) rest Cons.prems(3)] by (simp add: sa)
  next
    case False
    have "\<forall>n\<in>set (st @ [Node s (Some cur) (Some a) (cost cur + 1)]). node_ok init n"
      using n Cons.prems(3) by simp
    from Cons.IH [OF Cons.prems(1) rest this] False show ?thesis by (simp add: sa)
  qed
qed

lemma a_star_expand_node_ok:
  assumes "a_star_expand h cur ms (open_set, g, c) = Inr (open_set', g', c')"
    "node_ok init cur" "\<forall>sa\<in>set ms. is_move (state cur) sa"
    "\<forall>e\<in>set open_set. node_ok init (snd (snd e))"
  shows "\<forall>e\<in>set open_set'. node_ok init (snd (snd e))"
  using assms
proof (induction ms arbitrary: open_set g c)
  case Nil
  then show ?case by simp
next
  case (Cons sa ms)
  obtain s a where sa: "sa = (s, a)" by (cases sa)
  have n: "node_ok init (Node s (Some cur) (Some a) (cost cur + 1))"
    using node_ok.child [of init cur s a] Cons.prems(2,3) sa by simp
  show ?case
  proof (cases "case g s of None \<Rightarrow> True | Some g0 \<Rightarrow> Suc (cost cur) < g0")
    case True
    then obtain hv where hv: "h s = Inr hv"
      using Cons.prems(1) sa by (cases "h s") (simp_all add: Let_def)
    have "a_star_expand h cur ms
        (heappush open_set (Suc (cost cur) + hv, c + 1, Node s (Some cur) (Some a) (Suc (cost cur))),
         g(s \<mapsto> Suc (cost cur)), c + 1) = Inr (open_set', g', c')"
      using Cons.prems(1) sa True hv by (simp add: Let_def)
    then show ?thesis
      by (rule Cons.IH) (use Cons.prems n in \<open>auto simp: heappush_def\<close>)
  next
    case False
    then have "a_star_expand h cur ms (open_set, g, c) = Inr (open_set', g', c')"
      using Cons.prems(1) sa by (simp add: Let_def)
    then show ?thesis
      by (rule Cons.IH) (use Cons.prems in auto)
  qed
qed

lemma least_entry_mem: "least_entry e es \<in> set (e # es)"
  by (induction es arbitrary: e) (auto split: if_splits)

lemma heappop_Some:
  assumes "heappop open_set = Some (e, open_set')"
  shows "e \<in> set open_set" and "set open_set' \<subseteq> set open_set" and "open_set \<noteq> []"
    and "length open_set = Suc (length open_set')"
    and "mset open_set = add_mset e (mset open_set')"
proof -
  obtain x xs where x: "open_set = x # xs" using assms by (cases open_set) auto
  have e: "e = least_entry x xs" and o: "open_set' = remove1 e (x # xs)"
    using assms x by (auto simp add: Let_def simp del: remove1.simps)
  show m: "e \<in> set open_set" using e x least_entry_mem by simp
  show "set open_set' \<subseteq> set open_set" using o x set_remove1_subset by fast
  show "open_set \<noteq> []" using x by simp
  have "e \<in># mset (x # xs)" using m x by simp
  then have ms: "mset (x # xs) = add_mset e (mset (remove1 e (x # xs)))"
    by (simp only: mset_remove1 insert_DiffM)
  then have "size (mset (x # xs)) = size (add_mset e (mset (remove1 e (x # xs))))"
    by (rule arg_cong)
  then show "length open_set = Suc (length open_set')"
    unfolding o x by (simp only: size_mset size_add_mset)
  show "mset open_set = add_mset e (mset open_set')"
    unfolding o x by (rule ms)
qed

lemma heappop_None: "heappop open_set = None \<longleftrightarrow> open_set = []"
  by (cases open_set) (simp_all add: Let_def)

lemma moves_is_move: "get_possible_moves s = Inr ms \<Longrightarrow> \<forall>sa\<in>set ms. is_move s sa"
  by (simp add: is_move_def)

lemma bfs_loop_solution:
  assumes "bfs_loop queue visited ne mq = Some r"
  shows "(\<forall>n\<in>set queue. node_ok init n) \<longrightarrow>
         (\<forall>p ne' mq'. r = Inr (Some p, ne', mq') \<longrightarrow> solution_path init p)"
proof (rule bfs_loop.raw_induct [where P = "\<lambda>queue visited ne mq r.
    (\<forall>n\<in>set queue. node_ok init n) \<longrightarrow>
    (\<forall>p ne' mq'. r = Inr (Some p, ne', mq') \<longrightarrow> solution_path init p)", OF _ assms], goal_cases)
  case (1 f queue visited ne mq r)
  show ?case
  proof (intro impI allI)
    fix p ne' mq'
    assume ok: "\<forall>n\<in>set queue. node_ok init n" and r: "r = Inr (Some p, ne', mq')"
    show "solution_path init p"
    proof (cases queue)
      case Nil
      with 1(2) r show ?thesis by simp
    next
      case (Cons cur rest)
      have cur: "node_ok init cur" and rest: "\<forall>n\<in>set rest. node_ok init n"
        using ok Cons by simp_all
      show ?thesis
      proof (cases "is_goal (state cur)")
        case True
        with 1(2) r Cons have "p = get_path cur" by (simp add: Let_def)
        with cur True show ?thesis by (simp add: node_ok_goal_solution)
      next
        case False
        show ?thesis
        proof (cases "get_possible_moves (state cur)")
          case (Inl e)
          with 1(2) r Cons False show ?thesis by (simp add: Let_def)
        next
          case (Inr ms)
          obtain q' v' where ex: "bfs_expand cur ms (rest, visited) = (q', v')"
            by (cases "bfs_expand cur ms (rest, visited)")
          have "f q' v' (ne + 1) (max mq (length queue)) = Some r"
            using 1(2) Cons False Inr ex by (simp add: Let_def)
          moreover have "\<forall>n\<in>set q'. node_ok init n"
            using bfs_expand_node_ok [OF cur moves_is_move [OF Inr] rest, of visited] ex by simp
          ultimately show ?thesis using 1(1) r by blast
        qed
      qed
    qed
  qed
qed

lemma dfs_loop_solution:
  assumes "dfs_loop stack visited ne mq = Some r"
  shows "(\<forall>n\<in>set stack. node_ok init n) \<longrightarrow>
         (\<forall>p ne' mq'. r = Inr (Some p, ne', mq') \<longrightarrow> solution_path init p)"
proof (rule dfs_loop.raw_induct [where P = "\<lambda>stack visited ne mq r.
    (\<forall>n\<in>set stack. node_ok init n) \<longrightarrow>
    (\<forall>p ne' mq'. r = Inr (Some p, ne', mq') \<longrightarrow> solution_path init p)", OF _ assms], goal_cases)
  case (1 f stack visited ne mq r)
  show ?case
  proof (intro impI allI)
    fix p ne' mq'
    assume ok: "\<forall>n\<in>set stack. node_ok init n" and r: "r = Inr (Some p, ne', mq')"
    show "solution_path init p"
    proof (cases "stack = []")
      case True
      with 1(2) r show ?thesis by simp
    next
      case False
      let ?cur = "last stack"
      have cur: "node_ok init ?cur" using ok False by simp
      have rest: "\<forall>n\<in>set (butlast stack). node_ok init n"
        using ok by (auto dest: in_set_butlastD)
      show ?thesis
      proof (cases "state ?cur \<in> visited")
        case True
        with 1(2) False have "f (butlast stack) visited (ne + 1) (max mq (length stack)) = Some r"
          by (simp add: Let_def)
        with 1(1) rest r show ?thesis by blast
      next
        case nv: False
        show ?thesis
        proof (cases "is_goal (state ?cur)")
          case True
          with 1(2) r False nv have "p = get_path ?cur" by (simp add: Let_def)
          with cur True show ?thesis by (simp add: node_ok_goal_solution)
        next
          case ng: False
          show ?thesis
          proof (cases "get_possible_moves (state ?cur)")
            case (Inl e)
            with 1(2) r False nv ng show ?thesis by (simp add: Let_def)
          next
            case (Inr ms)
            let ?v = "insert (state ?cur) visited"
            have "f (dfs_expand ?cur (rev ms) ?v (butlast stack)) ?v (ne + 1)
                    (max mq (length stack)) = Some r"
              using 1(2) False nv ng Inr by (simp add: Let_def)
            moreover have "\<forall>sa\<in>set (rev ms). is_move (state ?cur) sa"
              using moves_is_move [OF Inr] by simp
            then have "\<forall>n\<in>set (dfs_expand ?cur (rev ms) ?v (butlast stack)). node_ok init n"
              using dfs_expand_node_ok [OF cur _ rest] by blast
            ultimately show ?thesis using 1(1) r by blast
          qed
        qed
      qed
    qed
  qed
qed

lemma a_star_loop_solution:
  assumes "a_star_loop h open_set g closed ne mq c = Some r"
  shows "(\<forall>e\<in>set open_set. node_ok init (snd (snd e))) \<longrightarrow>
         (\<forall>p ne' mq'. r = Inr (Some p, ne', mq') \<longrightarrow> solution_path init p)"
proof (rule a_star_loop.raw_induct [where P = "\<lambda>h open_set g closed ne mq c r.
    (\<forall>e\<in>set open_set. node_ok init (snd (snd e))) \<longrightarrow>
    (\<forall>p ne' mq'. r = Inr (Some p, ne', mq') \<longrightarrow> solution_path init p)", OF _ assms], goal_cases)
  case (1 f h open_set g closed ne mq c r)
  show ?case
  proof (intro impI allI)
    fix p ne' mq'
    assume ok: "\<forall>e\<in>set open_set. node_ok init (snd (snd e))" and r: "r = Inr (Some p, ne', mq')"
    show "solution_path init p"
    proof (cases "heappop open_set")
      case None
      with 1(2) r show ?thesis by simp
    next
      case (Some popped)
      obtain fc nid cur open' where popped: "popped = ((fc, nid, cur), open')"
        by (cases popped) auto
      note pop = Some [unfolded popped]
      have cur: "node_ok init cur" using ok heappop_Some(1) [OF pop] by fastforce
      have rest: "\<forall>e\<in>set open'. node_ok init (snd (snd e))"
        using ok heappop_Some(2) [OF pop] by blast
      show ?thesis
      proof (cases "state cur \<in> closed")
        case True
        with 1(2) pop have "f h open' g closed (ne + 1) (max mq (length open_set)) c = Some r"
          by (simp add: Let_def)
        with 1(1) rest r show ?thesis by blast
      next
        case nv: False
        show ?thesis
        proof (cases "is_goal (state cur)")
          case True
          with 1(2) r pop nv have "p = get_path cur" by (simp add: Let_def)
          with cur True show ?thesis by (simp add: node_ok_goal_solution)
        next
          case ng: False
          show ?thesis
          proof (cases "get_possible_moves (state cur)")
            case (Inl e)
            with 1(2) r pop nv ng show ?thesis by (simp add: Let_def)
          next
            case (Inr ms)
            show ?thesis
            proof (cases "a_star_expand h cur ms (open', g, c)")
              case (Inl e)
              with 1(2) r pop nv ng Inr show ?thesis by (simp add: Let_def)
            next
              case ex: (Inr res)
              obtain open'' g' c' where res: "res = (open'', g', c')" by (cases res) auto
              have "f h open'' g' (insert (state cur) closed) (ne + 1)
                      (max mq (length open_set)) c' = Some r"
                using 1(2) pop nv ng Inr ex res by (simp add: Let_def)
              moreover have "\<forall>e\<in>set open''. node_ok init (snd (snd e))"
                using a_star_expand_node_ok [OF ex [unfolded res] cur moves_is_move [OF Inr] rest] .
              ultimately show ?thesis using 1(1) r by blast
            qed
          qed
        qed
      qed
    qed
  qed
qed

lemma bfs_solution:
  assumes "bfs init = Some (Inr (Some p, ne, mq))"
  shows "solution_path init p"
proof -
  have "bfs_loop [Node init None None 0] {init} 0 0 = Some (Inr (Some p, ne, mq))"
    using assms by (simp add: bfs_def split: if_splits)
  from bfs_loop_solution [OF this, of init] show ?thesis
    by (simp add: node_ok.root)
qed

lemma dfs_solution:
  assumes "dfs init = Some (Inr (Some p, ne, mq))"
  shows "solution_path init p"
proof -
  have "dfs_loop [Node init None None 0] {} 0 0 = Some (Inr (Some p, ne, mq))"
    using assms by (simp add: dfs_def split: if_splits)
  from dfs_loop_solution [OF this, of init] show ?thesis
    by (simp add: node_ok.root)
qed

lemma a_star_solution:
  assumes "a_star h init = Some (Inr (Some p, ne, mq))"
  shows "solution_path init p"
proof -
  obtain h0 where "a_star_loop h [(h0, 0, Node init None None 0)] [init \<mapsto> 0] {} 0 0 0
      = Some (Inr (Some p, ne, mq))"
    using assms by (auto simp: a_star_def split: if_splits sum.splits)
  from a_star_loop_solution [OF this, of init] show ?thesis
    by (simp add: node_ok.root)
qed

lemma witness_runs:
  "bfs [1, 2, 0, 4, 5, 3, 7, 8, 6] =
     Some (Inr (Some [([1, 2, 0, 4, 5, 3, 7, 8, 6], Some ''Initial State''),
                      ([1, 2, 3, 4, 5, 0, 7, 8, 6], Some ''Down''),
                      ([1, 2, 3, 4, 5, 6, 7, 8, 0], Some ''Down'')], 4, 4))"
  "dfs [1, 2, 0, 4, 5, 3, 7, 8, 6] =
     Some (Inr (Some [([1, 2, 0, 4, 5, 3, 7, 8, 6], Some ''Initial State''),
                      ([1, 2, 3, 4, 5, 0, 7, 8, 6], Some ''Down''),
                      ([1, 2, 3, 4, 5, 6, 7, 8, 0], Some ''Down'')], 3, 3))"
  "a_star misplaced_tiles_heuristic [1, 2, 0, 4, 5, 3, 7, 8, 6] =
     Some (Inr (Some [([1, 2, 0, 4, 5, 3, 7, 8, 6], Some ''Initial State''),
                      ([1, 2, 3, 4, 5, 0, 7, 8, 6], Some ''Down''),
                      ([1, 2, 3, 4, 5, 6, 7, 8, 0], Some ''Down'')], 3, 3))"
  "a_star manhattan_distance_heuristic [1, 2, 0, 4, 5, 3, 7, 8, 6] =
     Some (Inr (Some [([1, 2, 0, 4, 5, 3, 7, 8, 6], Some ''Initial State''),
                      ([1, 2, 3, 4, 5, 0, 7, 8, 6], Some ''Down''),
                      ([1, 2, 3, 4, 5, 6, 7, 8, 0], Some ''Down'')], 3, 3))"
  by code_simp+

text \<open>
  Claim C2. Whenever one of the four entry points (breadth-first search, depth-first
  search, A* with the misplaced-tiles heuristic, A* with the Manhattan-distance heuristic)
  returns a path for an initial state, the path is not empty, its first element is the
  initial state with the label "Initial State", the state of its last element is the goal
  state (1,2,3,4,5,6,7,8,0), and every element after the first is a successor, with its
  move label, of the state of the element before it.
\<close>

theorem returned_path_is_solution:
  "(\<forall>p ne mq. bfs init = Some (Inr (Some p, ne, mq)) \<longrightarrow> solution_path init p) \<and>
   (\<forall>p ne mq. dfs init = Some (Inr (Some p, ne, mq)) \<longrightarrow> solution_path init p) \<and>
   (\<forall>p ne mq. a_star misplaced_tiles_heuristic init = Some (Inr (Some p, ne, mq)) \<longrightarrow>
      solution_path init p) \<and>
   (\<forall>p ne mq. a_star manhattan_distance_heuristic init = Some (Inr (Some p, ne, mq)) \<longrightarrow>
      solution_path init p)"
  using bfs_solution dfs_solution a_star_solution by blast

theorem returned_path_is_solution_witness:
  "bfs [1, 2, 0, 4, 5, 3, 7, 8, 6] =
     Some (Inr (Some [([1, 2, 0, 4, 5, 3, 7, 8, 6], Some ''Initial State''),
                      ([1, 2, 3, 4, 5, 0, 7, 8, 6], Some ''Down''),
                      ([1, 2, 3, 4, 5, 6, 7, 8, 0], Some ''Down'')], 4, 4)) \<and>
   dfs [1, 2, 0, 4, 5, 3, 7, 8, 6] =
     Some (Inr (Some [([1, 2, 0, 4, 5, 3, 7, 8, 6], Some ''Initial State''),
                      ([1, 2, 3, 4, 5, 0, 7, 8, 6], Some ''Down''),
                      ([1, 2, 3, 4, 5, 6, 7, 8, 0], Some ''Down'')], 3, 3)) \<and>
   a_star misplaced_tiles_heuristic [1, 2, 0, 4, 5, 3, 7, 8, 6] =
     Some (Inr (Some [([1, 2, 0, 4, 5, 3, 7, 8, 6], Some ''Initial State''),
                      ([1, 2, 3, 4, 5, 0, 7, 8, 6], Some ''Down''),
                      ([1, 2, 3, 4, 5, 6, 7, 8, 0], Some ''Down'')], 3, 3)) \<and>
   a_star manhattan_distance_heuristic [1, 2, 0, 4, 5, 3, 7, 8, 6] =
     Some (Inr (Some [([1, 2, 0, 4, 5, 3, 7, 8, 6], Some ''Initial State''),
                      ([1, 2, 3, 4, 5, 0, 7, 8, 6], Some ''Down''),
                      ([1, 2, 3, 4, 5, 6, 7, 8, 0], Some ''Down'')], 3, 3)) \<and>
   solution_path [1, 2, 0, 4, 5, 3, 7, 8, 6]
     [([1, 2, 0, 4, 5, 3, 7, 8, 6], Some ''Initial State''),
      ([1, 2, 3, 4, 5, 0, 7, 8, 6], Some ''Down''),
      ([1, 2, 3, 4, 5, 6, 7, 8, 0], Some ''Down'')]"
  using returned_path_is_solution [of "[1, 2, 0, 4, 5, 3, 7, 8, 6]"] witness_runs by blast

section \<open>Breadth-first search finds a shortest solution\<close>

lemma bfs_expand_new:
  assumes "bfs_expand cur ms (q, v) = (q', v')"
  shows "\<exists>new. q' = q @ new \<and> v' = v \<union> state ` set new \<and> distinct (map state new) \<and>
     (\<forall>n\<in>set new. state n \<notin> v \<and> cost n = cost cur + 1 \<and>
       (\<exists>a. (state n, a) \<in> set ms \<and> n = Node (state n) (Some cur) (Some a) (cost cur + 1))) \<and>
     fst ` set ms \<subseteq> v'"
  using assms
proof (induction ms arbitrary: q v)
  case Nil
  then show ?case by (intro exI [of _ "[]"]) simp
next
  case (Cons sa ms)
  obtain s a where sa: "sa = (s, a)" by (cases sa)
  show ?case
  proof (cases "s \<in> v")
    case True
    then have "bfs_expand cur ms (q, v) = (q', v')" using Cons.prems sa by simp
    from Cons.IH [OF this] obtain new where new: "q' = q @ new" "v' = v \<union> state ` set new"
      "distinct (map state new)"
      "\<forall>n\<in>set new. state n \<notin> v \<and> cost n = cost cur + 1 \<and>
         (\<exists>a. (state n, a) \<in> set ms \<and> n = Node (state n) (Some cur) (Some a) (cost cur + 1))"
      "fst ` set ms \<subseteq> v'"
      by blast
    show ?thesis
      by (intro exI [of _ new]) (use new True sa in auto)
  next
    case False
    let ?n = "Node s (Some cur) (Some a) (cost cur + 1)"
    have "bfs_expand cur ms (q @ [?n], insert s v) = (q', v')"
      using Cons.prems sa False by simp
    from Cons.IH [OF this] obtain new where new: "q' = (q @ [?n]) @ new"
      "v' = insert s v \<union> state ` set new" "distinct (map state new)"
      "\<forall>n\<in>set new. state n \<notin> insert s v \<and> cost n = cost cur + 1 \<and>
         (\<exists>a. (state n, a) \<in> set ms \<and> n = Node (state n) (Some cur) (Some a) (cost cur + 1))"
      "fst ` set ms \<subseteq> v'"
      by blast
    have 1: "q' = q @ ?n # new" using new(1) by simp
    have 2: "v' = v \<union> state ` set (?n # new)" using new(2) by auto
    have 3: "distinct (map state (?n # new))" using new(3,4) by auto
    have 4: "\<forall>n\<in>set (?n # new). state n \<notin> v \<and> cost n = cost cur + 1 \<and>
         (\<exists>a. (state n, a) \<in> set (sa # ms) \<and> n = Node (state n) (Some cur) (Some a) (cost cur + 1))"
      using new(4) False sa by auto
    have 5: "fst ` set (sa # ms) \<subseteq> v'" using new(2,5) sa by auto
    from 1 2 3 4 5 show ?thesis by blast
  qed
qed

lemma finite_valid_states: "finite {s. valid_state s}"
proof -
  have "{s. valid_state s} \<subseteq> {s. set s \<subseteq> {0, 1, 2, 3, 4, 5, 6, 7, 8} \<and> length s = 9}"
    using valid_state_set valid_state_length by auto
  moreover have "finite {s. set s \<subseteq> {0, 1, 2, 3, 4, 5, 6, 7, 8 :: int} \<and> length s = 9}"
    by (rule finite_lists_length_eq) simp
  ultimately show ?thesis by (rule finite_subset)
qed

lemma relpowp_reachable: "(move_rel ^^ k) s t \<Longrightarrow> reachable s t"
  unfolding reachable_def by (rule relpowp_imp_rtranclp)

lemma reachable_relpowp: "reachable s t \<Longrightarrow> \<exists>k. (move_rel ^^ k) s t"
  unfolding reachable_def by (simp add: rtranclp_power)

lemma within_mono: "within d init s \<Longrightarrow> d \<le> e \<Longrightarrow> within e init s"
  unfolding within_def by (meson le_trans)

lemma within_Suc:
  "within (Suc d) init s \<longleftrightarrow> within d init s \<or> (\<exists>w. (move_rel ^^ d) init w \<and> move_rel w s)"
proof
  assume "within (Suc d) init s"
  then obtain k where k: "k \<le> Suc d" "(move_rel ^^ k) init s" by (auto simp: within_def)
  show "within d init s \<or> (\<exists>w. (move_rel ^^ d) init w \<and> move_rel w s)"
  proof (cases "k = Suc d")
    case True
    with k(2) show ?thesis by auto
  next
    case False
    with k have "k \<le> d" by simp
    with k(2) show ?thesis by (auto simp: within_def)
  qed
next
  assume "within d init s \<or> (\<exists>w. (move_rel ^^ d) init w \<and> move_rel w s)"
  then show "within (Suc d) init s"
  proof
    assume "within d init s"
    then show ?thesis by (rule within_mono) simp
  next
    assume "\<exists>w. (move_rel ^^ d) init w \<and> move_rel w s"
    then have "(move_rel ^^ Suc d) init s" by auto
    then show ?thesis unfolding within_def by blast
  qed
qed

lemma move_rel_iff_moves:
  "move_rel s t \<longleftrightarrow> (\<exists>ms m. get_possible_moves s = Inr ms \<and> (t, m) \<in> set ms)"
  by (auto simp: move_rel_def is_move_iff_moves)

lemma bfs_inv_init: "bfs_inv init [Node init None None 0] {init}"
  unfolding bfs_inv_def
  by (auto simp: node_ok.root reachable_refl within_def)

lemma bfs_inv_step:
  assumes inv: "bfs_inv init (cur # rest) visited"
    and ng: "state cur \<noteq> goal_state"
    and moves: "get_possible_moves (state cur) = Inr ms"
    and ex: "bfs_expand cur ms (rest, visited) = (q', v')"
  shows "bfs_inv init q' v'"
proof -
  let ?d = "cost cur"
  from inv have I1: "\<forall>n\<in>set (cur # rest). node_ok init n \<and> state n \<in> visited"
    and I2: "init \<in> visited"
    and I3: "\<forall>s\<in>visited. reachable init s"
    and I4: "\<forall>u\<in>visited - state ` set (cur # rest).
               u \<noteq> goal_state \<and> (\<forall>t. move_rel u t \<longrightarrow> t \<in> visited)"
    and I5: "\<forall>n\<in>set (cur # rest). \<forall>k. (move_rel ^^ k) init (state n) \<longrightarrow> cost n \<le> k"
    and I6: "\<forall>n\<in>set (cur # rest). cost n \<le> ?d + 1"
    and I7: "sorted (map cost (cur # rest))"
    and I8: "\<forall>s. within ?d init s \<longrightarrow> s \<in> visited"
    unfolding bfs_inv_def by simp_all
  from bfs_expand_new [OF ex] obtain new where q': "q' = rest @ new"
    and v': "v' = visited \<union> state ` set new"
    and new: "\<forall>n\<in>set new. state n \<notin> visited \<and> cost n = ?d + 1 \<and>
       (\<exists>a. (state n, a) \<in> set ms \<and> n = Node (state n) (Some cur) (Some a) (?d + 1))"
    and succ: "fst ` set ms \<subseteq> v'"
    by blast
  have cur: "node_ok init cur" "state cur \<in> visited" using I1 by simp_all
  have new_ok: "node_ok init n \<and> move_rel (state cur) (state n)" if "n \<in> set new" for n
  proof -
    from new that obtain a where a: "(state n, a) \<in> set ms"
      "n = Node (state n) (Some cur) (Some a) (?d + 1)" by blast
    have mv: "is_move (state cur) (state n, a)" using a(1) moves by (simp add: is_move_def)
    then have "node_ok init (Node (state n) (Some cur) (Some a) (?d + 1))"
      using cur(1) by (rule node_ok.child [rotated])
    with a(2) mv show ?thesis by (auto simp: move_rel_def)
  qed
  have low: "?d \<le> cost n" if "n \<in> set q'" for n
    using that I7 new q' by auto
  have G1: "\<forall>n\<in>set q'. node_ok init n \<and> state n \<in> v'"
    using I1 new_ok q' v' by auto
  have G2: "init \<in> v'" using I2 v' by simp
  have G3: "\<forall>s\<in>v'. reachable init s"
  proof
    fix s assume "s \<in> v'"
    then consider "s \<in> visited" | n where "n \<in> set new" "s = state n" using v' by auto
    then show "reachable init s"
    proof cases
      case 1 then show ?thesis using I3 by blast
    next
      case 2
      have "reachable init (state cur)" using I3 cur(2) by blast
      then show ?thesis using new_ok [OF 2(1)] 2(2) reachable_step by blast
    qed
  qed
  have G4: "\<forall>u\<in>v' - state ` set q'. u \<noteq> goal_state \<and> (\<forall>t. move_rel u t \<longrightarrow> t \<in> v')"
  proof
    fix u assume u: "u \<in> v' - state ` set q'"
    then have uv: "u \<in> visited" "u \<notin> state ` set rest" using v' q' by auto
    show "u \<noteq> goal_state \<and> (\<forall>t. move_rel u t \<longrightarrow> t \<in> v')"
    proof (cases "u = state cur")
      case True
      have "t \<in> v'" if "move_rel u t" for t
      proof -
        from that True moves obtain m where "(t, m) \<in> set ms"
          by (auto simp: move_rel_iff_moves)
        then have "t \<in> fst ` set ms" by force
        with succ show ?thesis by blast
      qed
      with True ng show ?thesis by simp
    next
      case False
      with uv have "u \<in> visited - state ` set (cur # rest)" by simp
      with I4 v' show ?thesis by blast
    qed
  qed
  have G5: "\<forall>n\<in>set q'. \<forall>k. (move_rel ^^ k) init (state n) \<longrightarrow> cost n \<le> k"
  proof (intro ballI allI impI)
    fix n k assume n: "n \<in> set q'" and k: "(move_rel ^^ k) init (state n)"
    from n q' consider "n \<in> set rest" | "n \<in> set new" by auto
    then show "cost n \<le> k"
    proof cases
      case 1 then show ?thesis using I5 k by simp
    next
      case 2
      have "\<not> k \<le> ?d"
      proof
        assume "k \<le> ?d"
        with k have "within ?d init (state n)" by (auto simp: within_def)
        with I8 new 2 show False by blast
      qed
      with new 2 show ?thesis by auto
    qed
  qed
  have up: "cost n \<le> ?d + 1" if "n \<in> set q'" for n
    using that I6 new q' by auto
  have G6: "\<forall>n\<in>set q'. cost n \<le> cost (hd q') + 1"
  proof
    fix n assume n: "n \<in> set q'"
    then have "q' \<noteq> []" by auto
    then have "hd q' \<in> set q'" by simp
    from low [OF this] up [OF n] show "cost n \<le> cost (hd q') + 1" by simp
  qed
  have G7: "sorted (map cost q')"
  proof -
    have "sorted (map cost rest)" using I7 by simp
    moreover have "sorted (map cost new)"
      using new by (auto simp: sorted_iff_nth_mono)
    moreover have "\<forall>x\<in>set rest. \<forall>y\<in>set new. cost x \<le> cost y"
      using I6 new by auto
    ultimately show ?thesis unfolding q' by (simp add: sorted_append)
  qed
  have G8: "q' \<noteq> [] \<longrightarrow> (\<forall>s. within (cost (hd q')) init s \<longrightarrow> s \<in> v')"
  proof (intro impI allI)
    fix s assume ne: "q' \<noteq> []" and w: "within (cost (hd q')) init s"
    have hq: "hd q' \<in> set q'" using ne by simp
    have hmin: "cost (hd q') \<le> cost n" if "n \<in> set q'" for n
    proof -
      from that obtain i where i: "i < length q'" "q' ! i = n" by (auto simp: in_set_conv_nth)
      have "map cost q' ! 0 \<le> map cost q' ! i"
        using G7 i(1) by (intro sorted_nth_mono) simp_all
      then show ?thesis using i ne by (simp add: hd_conv_nth)
    qed
    show "s \<in> v'"
    proof (cases "cost (hd q') = ?d")
      case True
      with w I8 v' show ?thesis by simp
    next
      case False
      with low [OF hq] up [OF hq] have d': "cost (hd q') = Suc ?d" by simp
      from w [unfolded d' within_Suc]
      show ?thesis
      proof
        assume "within ?d init s"
        with I8 v' show ?thesis by simp
      next
        assume "\<exists>w. (move_rel ^^ ?d) init w \<and> move_rel w s"
        then obtain w where w: "(move_rel ^^ ?d) init w" "move_rel w s" by blast
        then have "within ?d init w" by (auto simp: within_def)
        then have wv: "w \<in> v'" using I8 v' by simp
        have "w \<notin> state ` set q'"
        proof
          assume "w \<in> state ` set q'"
          then obtain n where n: "n \<in> set q'" "state n = w" by auto
          from G5 n w(1) have "cost n \<le> ?d" by blast
          moreover from hmin [OF n(1)] d' have "Suc ?d \<le> cost n" by simp
          ultimately show False by simp
        qed
        with wv G4 w(2) show ?thesis by blast
      qed
    qed
  qed
  show ?thesis
    unfolding bfs_inv_def by (intro conjI G1 G2 G3 G4 G5 G6 G7 G8)
qed

lemma node_ok_relpowp: "node_ok init n \<Longrightarrow> (move_rel ^^ cost n) init (state n)"
proof (induction rule: node_ok.induct)
  case root
  show ?case by simp
next
  case (child p s a)
  then have "move_rel (state p) s" by (auto simp: move_rel_def)
  with child.IH show ?case by auto
qed

lemma bfs_expand_measure:
  assumes ex: "bfs_expand cur ms (rest, visited) = (q', v')"
    and fin: "finite U" and sub: "fst ` set ms \<subseteq> U"
  shows "2 * card (U - v') + length q' \<le> 2 * card (U - visited) + length rest"
proof -
  from bfs_expand_new [OF ex] obtain new where q': "q' = rest @ new"
    and v': "v' = visited \<union> state ` set new"
    and dist: "distinct (map state new)"
    and new: "\<forall>n\<in>set new. state n \<notin> visited \<and> cost n = cost cur + 1 \<and>
       (\<exists>a. (state n, a) \<in> set ms \<and> n = Node (state n) (Some cur) (Some a) (cost cur + 1))"
    by blast
  let ?S = "state ` set new"
  have S: "?S \<subseteq> U - visited"
  proof
    fix s assume "s \<in> ?S"
    then obtain n where n: "n \<in> set new" "s = state n" by auto
    with new obtain a where "(s, a) \<in> set ms" "s \<notin> visited" by blast
    then have "s \<in> fst ` set ms" by force
    with sub \<open>s \<notin> visited\<close> show "s \<in> U - visited" by blast
  qed
  have cS: "card ?S = length new"
    using dist distinct_card [of "map state new"] by simp
  have "U - v' = (U - visited) - ?S" using v' by auto
  then have "card (U - v') = card (U - visited) - card ?S"
    using S fin by (simp add: card_Diff_subset finite_subset)
  moreover have "card ?S \<le> card (U - visited)"
    using S fin by (simp add: card_mono)
  ultimately show ?thesis using cS q' by simp
qed

lemma bfs_inv_empty_closed:
  assumes inv: "bfs_inv init [] visited" and r: "reachable init s"
  shows "s \<in> visited \<and> s \<noteq> goal_state"
proof -
  from inv have I2: "init \<in> visited"
    and I4: "\<forall>u\<in>visited. u \<noteq> goal_state \<and> (\<forall>t. move_rel u t \<longrightarrow> t \<in> visited)"
    unfolding bfs_inv_def by simp_all
  from r have "s \<in> visited"
    unfolding reachable_def
  proof (induction rule: rtranclp_induct)
    case base
    show ?case by (rule I2)
  next
    case (step y z)
    with I4 show ?case by blast
  qed
  with I4 show ?thesis by blast
qed

lemma bfs_loop_total:
  assumes v: "valid_state init" and r: "reachable init goal_state"
    and inv: "bfs_inv init queue visited"
  shows "\<exists>n ne' mq'. bfs_loop queue visited ne mq = Some (Inr (Some (get_path n), ne', mq')) \<and>
           node_ok init n \<and> state n = goal_state \<and>
           (\<forall>k. (move_rel ^^ k) init goal_state \<longrightarrow> cost n \<le> k)"
  using inv
proof (induction "2 * card ({s. valid_state s} - visited) + length queue"
    arbitrary: queue visited ne mq rule: less_induct)
  case less
  note inv = less.prems
  show ?case
  proof (cases queue)
    case Nil
    with inv r bfs_inv_empty_closed [of init visited goal_state] show ?thesis by simp
  next
    case (Cons cur rest)
    from inv [unfolded Cons] have cur: "node_ok init cur" "state cur \<in> visited"
      and I3: "\<forall>s\<in>visited. reachable init s"
      and I5: "\<forall>k. (move_rel ^^ k) init (state cur) \<longrightarrow> cost cur \<le> k"
      unfolding bfs_inv_def by simp_all
    show ?thesis
    proof (cases "is_goal (state cur)")
      case True
      then have "bfs_loop queue visited ne mq =
          Some (Inr (Some (get_path cur), ne + 1, max mq (length queue)))"
        unfolding Cons by (subst bfs_loop.simps) (simp add: Let_def)
      with True cur(1) I5 show ?thesis by (auto simp: is_goal_def)
    next
      case False
      have vc: "valid_state (state cur)"
        using I3 cur(2) v reachable_valid_solvable by blast
      let ?ms = "successors_spec (state cur)"
      have ms: "get_possible_moves (state cur) = Inr ?ms"
        using vc by (rule get_possible_moves_valid)
      obtain q' v' where ex: "bfs_expand cur ?ms (rest, visited) = (q', v')"
        by (cases "bfs_expand cur ?ms (rest, visited)")
      have inv': "bfs_inv init q' v'"
        using inv [unfolded Cons] _ ms ex by (rule bfs_inv_step) (use False in \<open>simp add: is_goal_def\<close>)
      have "fst ` set ?ms \<subseteq> {s. valid_state s}"
      proof
        fix t assume "t \<in> fst ` set ?ms"
        then obtain m where "(t, m) \<in> set ?ms" by force
        with ms have "move_rel (state cur) t" by (auto simp: move_rel_iff_moves)
        with vc show "t \<in> {s. valid_state s}" by (simp add: move_rel_valid)
      qed
      from bfs_expand_measure [OF ex finite_valid_states this]
      have less': "2 * card ({s. valid_state s} - v') + length q'
          < 2 * card ({s. valid_state s} - visited) + length queue"
        unfolding Cons by simp
      have "bfs_loop queue visited ne mq = bfs_loop q' v' (ne + 1) (max mq (length queue))"
        unfolding Cons by (subst bfs_loop.simps) (simp add: Let_def False ms ex)
      with less.hyps [OF less' inv', of "ne + 1" "max mq (length queue)"] show ?thesis
        by simp
    qed
  qed
qed

lemma bfs_shortest:
  assumes v: "valid_state init" and s: "is_solvable init" and r: "reachable init goal_state"
  shows "\<exists>p ne mq. bfs init = Some (Inr (Some p, ne, mq)) \<and> solution_path init p \<and>
           length p - 1 = min_moves init \<and> (move_rel ^^ min_moves init) init goal_state"
proof -
  from bfs_loop_total [OF v r bfs_inv_init, of 0 0] obtain n ne mq
    where run: "bfs_loop [Node init None None 0] {init} 0 0 = Some (Inr (Some (get_path n), ne, mq))"
      and n: "node_ok init n" "state n = goal_state"
      and opt: "\<forall>k. (move_rel ^^ k) init goal_state \<longrightarrow> cost n \<le> k"
    by blast
  have reach: "(move_rel ^^ cost n) init goal_state"
    using node_ok_relpowp [OF n(1)] n(2) by simp
  have "min_moves init = cost n"
    unfolding min_moves_def using reach opt by (intro Least_equality) simp_all
  moreover have "solution_path init (get_path n)"
    using n by (simp add: node_ok_goal_solution is_goal_def)
  moreover have "length (get_path n) = cost n + 1" using n(1) by (rule node_ok_length)
  moreover have "bfs init = Some (Inr (Some (get_path n), ne, mq))"
    using run s by (simp add: bfs_def)
  ultimately show ?thesis using reach by simp
qed

section \<open>Every solvable state reaches the goal\<close>

lemma routes_checked: "routes_ok"
  by code_simp

lemma last_checked: "last_ok"
  by code_simp

lemma find_label_mem:
  "find (\<lambda>sm. snd sm = m) ms = Some sm \<Longrightarrow> (fst sm, m) \<in> set ms"
  by (induction ms) (auto split: if_splits)

lemma slide_is_move: "slide st m = Some t \<Longrightarrow> is_move st (t, m)"
  unfolding slide_def is_move_def
  by (cases "get_possible_moves st") (auto dest: find_label_mem)

lemma slides_reachable: "slides st ms = Some t \<Longrightarrow> reachable st t"
proof (induction ms arbitrary: st)
  case Nil
  then show ?case by (simp add: reachable_refl)
next
  case (Cons m ms)
  then obtain u where u: "slide st m = Some u" "slides u ms = Some t"
    by (auto split: option.splits)
  have "move_rel st u" using slide_is_move [OF u(1)] by (auto simp: move_rel_def)
  then have "reachable st u" by (simp add: reachable_def)
  then show ?case using Cons.IH [OF u(2)] by (rule reachable_trans)
qed

lemma follow_reachable: "follow st r = Some t \<Longrightarrow> reachable st t"
  unfolding follow_def by (rule slides_reachable)

text \<open>Renaming the tiles commutes with the moves, as long as only the blank is named 0.\<close>

lemma tuple_index_map:
  assumes "\<forall>x. f x = 0 \<longleftrightarrow> x = (0::int)"
  shows "tuple_index (map f st) 0 = tuple_index st 0"
  using assms by (induction st) auto

lemma moves_from_map:
  "moves_from (map f st) br bc ds =
     (case moves_from st br bc ds of
        Inl e \<Rightarrow> Inl e
      | Inr ms \<Rightarrow> Inr (map (\<lambda>sm. (map f (fst sm), snd sm)) ms))"
proof (induction ds)
  case Nil
  show ?case by simp
next
  case (Cons d ds)
  obtain dr dc desc where d: "d = (dr, dc, desc)" by (cases d)
  show ?case
    unfolding d using Cons.IH
    by (auto simp: Let_def map_update split: sum.splits)
qed

lemma get_possible_moves_map:
  assumes "\<forall>x. f x = 0 \<longleftrightarrow> x = (0::int)"
  shows "get_possible_moves (map f st) =
     (case get_possible_moves st of
        Inl e \<Rightarrow> Inl e
      | Inr ms \<Rightarrow> Inr (map (\<lambda>sm. (map f (fst sm), snd sm)) ms))"
  unfolding get_possible_moves_def find_blank_def tuple_index_map [OF assms]
  by (auto simp: moves_from_map split: sum.splits)

lemma find_map_label:
  "find (\<lambda>sm. snd sm = m) (map (\<lambda>sm. (g (fst sm), snd sm)) ms) =
     map_option (\<lambda>sm. (g (fst sm), snd sm)) (find (\<lambda>sm. snd sm = m) ms)"
  by (induction ms) auto

lemma slide_map:
  assumes "\<forall>x. f x = 0 \<longleftrightarrow> x = (0::int)"
  shows "slide (map f st) m = map_option (map f) (slide st m)"
  unfolding slide_def get_possible_moves_map [OF assms]
  by (auto split: sum.splits simp: find_map_label option.map_comp comp_def)

lemma slides_map:
  assumes "\<forall>x. f x = 0 \<longleftrightarrow> x = (0::int)"
  shows "slides (map f st) ms = map_option (map f) (slides st ms)"
proof (induction ms arbitrary: st)
  case Nil
  show ?case by simp
next
  case (Cons m ms)
  show ?case
    by (cases "slide st m") (simp_all add: slide_map [OF assms] Cons.IH)
qed

lemma follow_map:
  assumes "\<forall>x. f x = 0 \<longleftrightarrow> x = (0::int)"
  shows "follow (map f st) r = map_option (map f) (follow st r)"
  unfolding follow_def by (rule slides_map [OF assms])

lemma placing_order_facts:
  assumes "t \<in> set placing_order"
  shows "home t < 9" "goal_state ! home t = t" "t \<noteq> 0" "t \<noteq> 9"
  using assms by (auto simp: placing_order_def home_def goal_state_def)

lemma home_goal:
  assumes "i < 9" "goal_state ! i \<in> set placing_order"
  shows "home (goal_state ! i) = i"
proof -
  have "i \<in> {0, 1, 2, 3, 4, 5, 6, 7, 8}" using assms(1) by auto
  then show ?thesis
    using assms(2) by (auto simp: placing_order_def home_def goal_state_def)
qed

lemma placing_order_distinct: "distinct placing_order" "length placing_order = 5"
  by (simp_all add: placing_order_def)

lemma nth_notin_take: "distinct xs \<Longrightarrow> k < length xs \<Longrightarrow> xs ! k \<notin> set (take k xs)"
  by (metis distinct_take id_take_nth_drop not_distinct_conv_prefix take_Suc_conv_app_nth
      distinct.simps(2) distinct_append append.right_neutral distinct1_rotate rotate1.simps(2))

lemma set_take_Suc: "k < length xs \<Longrightarrow> set (take (Suc k) xs) = insert (xs ! k) (set (take k xs))"
  by (simp add: take_Suc_conv_app_nth)

lemma placedD: "placed k st \<Longrightarrow> t \<in> set (take k placing_order) \<Longrightarrow> st ! home t = t"
  by (simp add: placed_def list_all_iff)

lemma tracked_zero: "\<forall>x. tracked k x = 0 \<longleftrightarrow> x = 0"
  by (simp add: tracked_def)

lemma goal_state_length: "length goal_state = 9"
  by (simp add: goal_state_def)

lemma stage_abstract:
  assumes v: "valid_state st" and k: "k < 5" and pl: "placed k st"
    and p0: "p0 < 9" "st ! p0 = 0" and p: "p < 9" "st ! p = placing_order ! k"
  shows "map (tracked (Suc k)) st = stage_state k p0 p"
    and "p0 \<noteq> p" and "free_cell k p0" and "free_cell k p"
proof -
  let ?tile = "placing_order ! k"
  let ?T = "set (take k placing_order)"
  have len: "length st = 9" and dist: "distinct st"
    using v by (simp_all add: valid_state_length valid_state_distinct)
  have kl: "k < length placing_order" using k by (simp add: placing_order_distinct)
  have tile_in: "?tile \<in> set placing_order" using kl by simp
  have tile_new: "?tile \<notin> ?T"
    using placing_order_distinct(1) kl by (rule nth_notin_take)
  have T_sub: "?T \<subseteq> set placing_order" by (rule set_take_subset)
  have T_Suc: "set (take (Suc k) placing_order) = insert ?tile ?T"
    using kl by (rule set_take_Suc)
  have eq_cell: "i = j" if "i < 9" "j < 9" "st ! i = st ! j" for i j
    using that len dist by (simp add: nth_eq_iff_index_eq)
  show ne: "p0 \<noteq> p"
    using p0(2) p(2) placing_order_facts(3) [OF tile_in] by auto
  have at_home: "st ! i = goal_state ! i" if "i < 9" "goal_state ! i \<in> ?T" for i
  proof -
    have "home (goal_state ! i) = i" using that T_sub by (intro home_goal) auto
    with placedD [OF pl that(2)] show ?thesis by simp
  qed
  show f0: "free_cell k p0"
    unfolding free_cell_def
  proof
    assume a: "goal_state ! p0 \<in> ?T"
    from at_home [OF p0(1) a] p0(2) have "goal_state ! p0 = 0" by simp
    with a T_sub placing_order_facts(3) show False by auto
  qed
  show f1: "free_cell k p"
    unfolding free_cell_def
  proof
    assume a: "goal_state ! p \<in> ?T"
    from at_home [OF p(1) a] p(2) have "goal_state ! p = ?tile" by simp
    with a tile_new show False by simp
  qed
  show "map (tracked (Suc k)) st = stage_state k p0 p"
  proof (rule nth_equalityI)
    show "length (map (tracked (Suc k)) st) = length (stage_state k p0 p)"
      by (simp add: len stage_state_def goal_state_length)
  next
    fix i assume "i < length (map (tracked (Suc k)) st)"
    then have i: "i < 9" by (simp add: len)
    have L: "map (tracked (Suc k)) st ! i = tracked (Suc k) (st ! i)"
      using i len by simp
    have R: "stage_state k p0 p ! i =
        (if i = p0 then 0 else if i = p then ?tile
         else if goal_state ! i \<in> ?T then goal_state ! i else 9)"
      using i p0(1) p(1) by (simp add: stage_state_def nth_list_update goal_state_length)
    show "map (tracked (Suc k)) st ! i = stage_state k p0 p ! i"
    proof (cases "i = p0")
      case True
      then show ?thesis unfolding L R using p0(2) by (simp add: tracked_def)
    next
      case n0: False
      show ?thesis
      proof (cases "i = p")
        case True
        then show ?thesis unfolding L R using n0 p(2) by (simp add: tracked_def T_Suc)
      next
        case n1: False
        have nz: "st ! i \<noteq> 0" using eq_cell [OF i p0(1)] p0(2) n0 by auto
        have nt: "st ! i \<noteq> ?tile" using eq_cell [OF i p(1)] p(2) n1 by auto
        show ?thesis
        proof (cases "goal_state ! i \<in> ?T")
          case True
          then show ?thesis
            unfolding L R using n0 n1 at_home [OF i True] by (simp add: tracked_def T_Suc)
        next
          case False
          have "st ! i \<notin> ?T"
          proof
            assume a: "st ! i \<in> ?T"
            then have o: "st ! i \<in> set placing_order" using T_sub by auto
            have "st ! home (st ! i) = st ! i" using placedD [OF pl a] .
            then have "home (st ! i) = i"
              using eq_cell [OF placing_order_facts(1) [OF o] i] by simp
            with placing_order_facts(2) [OF o] have "goal_state ! i = st ! i" by simp
            with a False show False by simp
          qed
          then show ?thesis
            unfolding L R using n0 n1 nz nt False by (simp add: tracked_def T_Suc)
        qed
      qed
    qed
  qed
qed

lemma routes_okD:
  assumes "routes_ok" "k < 5" "p0 < 9" "p < 9" "p0 \<noteq> p" "free_cell k p0" "free_cell k p"
  shows "stage_ok k p0 p"
proof -
  have "k \<in> set [0 ..< 5]" "p0 \<in> set [0 ..< 9]" "p \<in> set [0 ..< 9]"
    using assms(2-4) by simp_all
  with assms(1) have "p0 = p \<or> \<not> free_cell k p0 \<or> \<not> free_cell k p \<or> stage_ok k p0 p"
    unfolding routes_ok_def list_all_iff by blast
  with assms(5-7) show ?thesis by blast
qed

lemma stage_step:
  assumes ok: "routes_ok" and v: "valid_state st" and k: "k < 5" and pl: "placed k st"
  shows "\<exists>t. reachable st t \<and> placed (Suc k) t"
proof -
  let ?tile = "placing_order ! k"
  let ?f = "tracked (Suc k)"
  have len: "length st = 9" using v by (rule valid_state_length)
  have kl: "k < length placing_order" using k by (simp add: placing_order_distinct)
  have p0: "blank_cell st < 9" "st ! blank_cell st = 0"
    using valid_state_blank [OF v] by simp_all
  have "?tile \<in> set placing_order" using kl by simp
  then have "?tile \<in> set st"
    using valid_state_set [OF v] by (auto simp: placing_order_def)
  then obtain p where p: "p < 9" "st ! p = ?tile"
    using len by (auto simp: in_set_conv_nth)
  note ab = stage_abstract [OF v k pl p0 p]
  from routes_okD [OF ok k p0(1) p(1) ab(2,3,4)]
  obtain a where a: "follow (stage_state k (blank_cell st) p) (route k (blank_cell st) p) = Some a"
    and pa: "placed (Suc k) a"
    unfolding stage_ok_def by (auto split: option.splits)
  have "map_option (map ?f) (follow st (route k (blank_cell st) p)) = Some a"
    using a follow_map [OF tracked_zero, of "Suc k" st] ab(1) by simp
  then obtain t where t: "follow st (route k (blank_cell st) p) = Some t" "map ?f t = a"
    by auto
  have r: "reachable st t" using t(1) by (rule follow_reachable)
  then have lt: "length t = 9"
    using reachable_valid_solvable [OF r v] valid_state_length by blast
  have "placed (Suc k) t"
    unfolding placed_def list_all_iff
  proof
    fix u assume u: "u \<in> set (take (Suc k) placing_order)"
    then have uo: "u \<in> set placing_order" using set_take_subset by fast
    have "a ! home u = u" using pa u by (rule placedD)
    then have "?f (t ! home u) = u"
      using t(2) lt placing_order_facts(1) [OF uo] by auto
    then show "t ! home u = u"
      using placing_order_facts(4) [OF uo] by (auto simp: tracked_def split: if_splits)
  qed
  with r show ?thesis by blast
qed

lemma stages_reach:
  assumes ok: "routes_ok" and v: "valid_state st" and k: "k \<le> 5"
  shows "\<exists>t. reachable st t \<and> placed k t"
  using k
proof (induction k)
  case 0
  have "placed 0 st" by (simp add: placed_def)
  then show ?case using reachable_refl by blast
next
  case (Suc k)
  then obtain t where t: "reachable st t" "placed k t" by auto
  have vt: "valid_state t" using reachable_valid_solvable [OF t(1) v] by simp
  from stage_step [OF ok vt _ t(2)] Suc.prems obtain u where "reachable t u" "placed (Suc k) u"
    by auto
  with t(1) show ?case using reachable_trans by blast
qed

lemma last_block_state:
  assumes v: "valid_state t" and pl: "placed 5 t"
  obtains a b c d where "t = [1, 2, 3, 4, a, b, 7, c, d]"
    "a \<in> set last_block" "b \<in> set last_block" "c \<in> set last_block" "d \<in> set last_block"
proof -
  obtain a0 a1 a2 a3 a4 a5 a6 a7 a8 where t: "t = [a0, a1, a2, a3, a4, a5, a6, a7, a8]"
    using v by (rule valid_state_explicit)
  have h: "a0 = 1" "a1 = 2" "a2 = 3" "a3 = 4" "a6 = 7"
    using pl unfolding t by (simp_all add: placed_def placing_order_def home_def)
  have d: "distinct t" using v by (rule valid_state_distinct)
  have s: "set t = {0, 1, 2, 3, 4, 5, 6, 7, 8}" using v by (rule valid_state_set)
  have m: "a4 \<in> set t" "a5 \<in> set t" "a7 \<in> set t" "a8 \<in> set t" unfolding t by simp_all
  have "a4 \<in> set last_block" "a5 \<in> set last_block" "a7 \<in> set last_block" "a8 \<in> set last_block"
    using m [unfolded s] d [unfolded t h] by (auto simp: last_block_def)
  then show ?thesis using that [of a4 a5 a7 a8] t h by simp
qed

lemma last_okD:
  assumes "last_ok" "a \<in> set last_block" "b \<in> set last_block" "c \<in> set last_block"
    "d \<in> set last_block"
    "valid_state [1, 2, 3, 4, a, b, 7, c, d]" "is_solvable [1, 2, 3, 4, a, b, 7, c, d]"
  shows "follow [1, 2, 3, 4, a, b, 7, c, d] (last_route [1, 2, 3, 4, a, b, 7, c, d]) = Some goal_state"
  using assms unfolding last_ok_def list_all_iff by blast

lemma solvable_reachable_if:
  assumes ok: "routes_ok" "last_ok" and v: "valid_state st" and s: "is_solvable st"
  shows "reachable st goal_state"
proof -
  from stages_reach [OF ok(1) v, of 5] obtain t where t: "reachable st t" "placed 5 t" by auto
  have vt: "valid_state t" and so: "is_solvable t"
    using reachable_valid_solvable [OF t(1) v] s by simp_all
  from vt t(2) obtain a b c d where abcd: "t = [1, 2, 3, 4, a, b, 7, c, d]"
    "a \<in> set last_block" "b \<in> set last_block" "c \<in> set last_block" "d \<in> set last_block"
    by (rule last_block_state)
  have "follow t (last_route t) = Some goal_state"
    unfolding abcd(1) using ok(2) abcd(2-5) vt so unfolding abcd(1) by (rule last_okD)
  then have "reachable t goal_state" by (rule follow_reachable)
  with t(1) show ?thesis by (rule reachable_trans)
qed

lemma solvable_reachable:
  assumes "valid_state st" "is_solvable st"
  shows "reachable st goal_state"
  using routes_checked last_checked assms by (rule solvable_reachable_if)

lemma move_path_relpowp:
  assumes "move_path init q" "i < length q"
  shows "(move_rel ^^ i) init (fst (q ! i))"
  using assms(2)
proof (induction i)
  case 0
  then show ?case using assms(1) by (simp add: move_path_def hd_conv_nth)
next
  case (Suc i)
  then have "(move_rel ^^ i) init (fst (q ! i))" by simp
  moreover have "move_rel (fst (q ! i)) (fst (q ! Suc i))"
    using assms(1) Suc.prems unfolding move_path_def move_rel_iff_moves by blast
  ultimately show ?case by auto
qed

lemma solution_path_relpowp:
  assumes "solution_path init q"
  shows "(move_rel ^^ (length q - 1)) init goal_state"
proof -
  have mp: "move_path init q" and g: "fst (last q) = goal_state"
    using assms by (simp_all add: solution_path_def)
  have ne: "q \<noteq> []" using mp by (simp add: move_path_def)
  then have "(move_rel ^^ (length q - 1)) init (fst (q ! (length q - 1)))"
    by (intro move_path_relpowp [OF mp]) simp
  then show ?thesis using g ne by (simp add: last_conv_nth)
qed

text \<open>
  Claim C1. For every solvable initial state (a well-formed state with an even number of
  inversions), breadth-first search returns a path, the path leads from the initial state
  to the goal by moves of the puzzle, and its number of moves (its length minus one) is
  the least number of moves that lead from the initial state to the goal: no solution path
  is shorter.
\<close>

theorem bfs_optimal:
  assumes "valid_state init" "even (inversions init)"
  shows "\<exists>p ne mq. bfs init = Some (Inr (Some p, ne, mq)) \<and> solution_path init p \<and>
           length p - 1 = min_moves init \<and> (move_rel ^^ min_moves init) init goal_state \<and>
           (\<forall>q. solution_path init q \<longrightarrow> length p \<le> length q)"
proof -
  have s: "is_solvable init" using assms(2) by (simp add: is_solvable_even_inversions)
  have r: "reachable init goal_state" using assms(1) s by (rule solvable_reachable)
  from bfs_shortest [OF assms(1) s r] obtain p ne mq where
    run: "bfs init = Some (Inr (Some p, ne, mq))" and sp: "solution_path init p"
    and len: "length p - 1 = min_moves init"
    and mm: "(move_rel ^^ min_moves init) init goal_state"
    by blast
  have "length p \<le> length q" if q: "solution_path init q" for q
  proof -
    have "min_moves init \<le> length q - 1"
      unfolding min_moves_def using solution_path_relpowp [OF q] by (rule Least_le)
    moreover have "q \<noteq> []" using q by (simp add: solution_path_def move_path_def)
    ultimately show ?thesis using len by (cases q) simp_all
  qed
  with run sp len mm show ?thesis by blast
qed

theorem bfs_optimal_witness:
  "valid_state [1, 2, 0, 4, 5, 3, 7, 8, 6] \<and> even (inversions [1, 2, 0, 4, 5, 3, 7, 8, 6]) \<and>
   bfs [1, 2, 0, 4, 5, 3, 7, 8, 6] =
     Some (Inr (Some [([1, 2, 0, 4, 5, 3, 7, 8, 6], Some ''Initial State''),
                      ([1, 2, 3, 4, 5, 0, 7, 8, 6], Some ''Down''),
                      ([1, 2, 3, 4, 5, 6, 7, 8, 0], Some ''Down'')], 4, 4)) \<and>
   min_moves [1, 2, 0, 4, 5, 3, 7, 8, 6] = 2"
proof -
  have v: "valid_state [1, 2, 0, 4, 5, 3, 7, 8, 6]" by (simp add: valid_state_def)
  have "is_solvable [1, 2, 0, 4, 5, 3, 7, 8, 6]"
    by (simp add: is_solvable_inv_count non_blank_tiles_def)
  then have e: "even (inversions [1, 2, 0, 4, 5, 3, 7, 8, 6])"
    by (simp add: is_solvable_even_inversions)
  from bfs_optimal [OF v e] witness_runs(1) have "min_moves [1, 2, 0, 4, 5, 3, 7, 8, 6] = 2"
    by auto
  with v e witness_runs(1) show ?thesis by blast
qed

section \<open>A* search finds a shortest solution\<close>

lemma least_entry_min:
  "fst (least_entry e es) \<le> fst e \<and> (\<forall>y\<in>set es. fst (least_entry e es) \<le> fst y)"
proof (induction es arbitrary: e)
  case Nil
  show ?case by simp
next
  case (Cons x xs)
  let ?e' = "if entry_less x e then x else e"
  have "fst ?e' \<le> fst e" "fst ?e' \<le> fst x"
    by (auto simp: entry_less_def)
  with Cons.IH [of ?e'] show ?case by auto
qed

lemma heappop_min:
  assumes "heappop open_set = Some (e, open_set')" "y \<in> set open_set"
  shows "fst e \<le> fst y"
proof -
  obtain x xs where x: "open_set = x # xs" using assms(1) by (cases open_set) auto
  have "e = least_entry x xs" using assms(1) x by (auto simp: Let_def simp del: remove1.simps)
  with least_entry_min [of x xs] assms(2) x show ?thesis by auto
qed

lemma heappop_rest:
  assumes "heappop open_set = Some (e, open_set')" "y \<in> set open_set" "y \<noteq> e"
  shows "y \<in> set open_set'"
proof -
  have "mset open_set = add_mset e (mset open_set')" using assms(1) by (rule heappop_Some(5))
  then have "set_mset (mset open_set) = insert e (set_mset (mset open_set'))" by simp
  with assms(2,3) show ?thesis by auto
qed

lemma a_star_expand_props:
  assumes "\<forall>sa\<in>set ms. h (fst sa) = Inr (hv (fst sa))"
  shows "\<exists>new g'. a_star_expand h cur ms (open_set, g, c) = Inr (open_set @ new, g', c + length new) \<and>
     length new \<le> length ms \<and>
     (\<forall>e\<in>set new. \<exists>t a. (t, a) \<in> set ms \<and> fst e = cost cur + 1 + hv t \<and>
        snd (snd e) = Node t (Some cur) (Some a) (cost cur + 1) \<and> g' t = Some (cost cur + 1)) \<and>
     (\<forall>t. g' t = g t \<or>
        (g' t = Some (cost cur + 1) \<and>
         (\<exists>e\<in>set new. state (snd (snd e)) = t \<and> cost (snd (snd e)) = cost cur + 1) \<and>
         (\<forall>k. g t = Some k \<longrightarrow> cost cur + 1 < k))) \<and>
     (\<forall>t\<in>fst ` set ms. \<exists>k. g' t = Some k \<and> k \<le> cost cur + 1)"
  using assms
proof (induction ms arbitrary: open_set g c)
  case Nil
  show ?case by (intro exI [of _ "[]"] exI [of _ g]) simp
next
  case (Cons sa ms)
  obtain s a where sa: "sa = (s, a)" by (cases sa)
  let ?ng = "cost cur + 1"
  have hs: "h s = Inr (hv s)" using Cons.prems sa by simp
  have rest: "\<forall>sa\<in>set ms. h (fst sa) = Inr (hv (fst sa))" using Cons.prems by simp
  show ?case
  proof (cases "case g s of None \<Rightarrow> True | Some k \<Rightarrow> Suc (cost cur) < k")
    case True
    let ?e = "(?ng + hv s, c + 1, Node s (Some cur) (Some a) ?ng)"
    let ?g1 = "g(s \<mapsto> ?ng)"
    from Cons.IH [OF rest, of "open_set @ [?e]" ?g1 "c + 1"]
    obtain new g' where ih:
      "a_star_expand h cur ms (open_set @ [?e], ?g1, c + 1)
         = Inr ((open_set @ [?e]) @ new, g', c + 1 + length new)"
      "length new \<le> length ms"
      "\<forall>e\<in>set new. \<exists>t a. (t, a) \<in> set ms \<and> fst e = ?ng + hv t \<and>
          snd (snd e) = Node t (Some cur) (Some a) ?ng \<and> g' t = Some ?ng"
      "\<forall>t. g' t = ?g1 t \<or>
          (g' t = Some ?ng \<and> (\<exists>e\<in>set new. state (snd (snd e)) = t \<and> cost (snd (snd e)) = ?ng) \<and>
           (\<forall>k. ?g1 t = Some k \<longrightarrow> ?ng < k))"
      "\<forall>t\<in>fst ` set ms. \<exists>k. g' t = Some k \<and> k \<le> ?ng"
      by blast
    have gs: "g' s = Some ?ng" using ih(4) by (auto split: if_splits)
    have 1: "a_star_expand h cur (sa # ms) (open_set, g, c)
        = Inr (open_set @ (?e # new), g', c + length (?e # new))"
      using True hs ih(1) by (simp add: sa Let_def heappush_def)
    have 2: "length (?e # new) \<le> length (sa # ms)" using ih(2) by simp
    have 3: "\<forall>e\<in>set (?e # new). \<exists>t a. (t, a) \<in> set (sa # ms) \<and> fst e = ?ng + hv t \<and>
          snd (snd e) = Node t (Some cur) (Some a) ?ng \<and> g' t = Some ?ng"
      using ih(3) gs sa by auto
    have 4: "\<forall>t. g' t = g t \<or>
          (g' t = Some ?ng \<and>
           (\<exists>e\<in>set (?e # new). state (snd (snd e)) = t \<and> cost (snd (snd e)) = ?ng) \<and>
           (\<forall>k. g t = Some k \<longrightarrow> ?ng < k))"
    proof
      fix t
      show "g' t = g t \<or>
          (g' t = Some ?ng \<and>
           (\<exists>e\<in>set (?e # new). state (snd (snd e)) = t \<and> cost (snd (snd e)) = ?ng) \<and>
           (\<forall>k. g t = Some k \<longrightarrow> ?ng < k))"
      proof (cases "t = s")
        case ts: True
        have "\<forall>k. g s = Some k \<longrightarrow> ?ng < k" using True by auto
        with gs ts show ?thesis by auto
      next
        case False
        with ih(4) [rule_format, of t] show ?thesis by auto
      qed
    qed
    have 5: "\<forall>t\<in>fst ` set (sa # ms). \<exists>k. g' t = Some k \<and> k \<le> ?ng"
      using ih(5) gs sa by auto
    from 1 2 3 4 5 show ?thesis by blast
  next
    case False
    then obtain k0 where k0: "g s = Some k0" "k0 \<le> ?ng"
      by (cases "g s") auto
    from Cons.IH [OF rest, of open_set g c]
    obtain new g' where ih:
      "a_star_expand h cur ms (open_set, g, c) = Inr (open_set @ new, g', c + length new)"
      "length new \<le> length ms"
      "\<forall>e\<in>set new. \<exists>t a. (t, a) \<in> set ms \<and> fst e = ?ng + hv t \<and>
          snd (snd e) = Node t (Some cur) (Some a) ?ng \<and> g' t = Some ?ng"
      "\<forall>t. g' t = g t \<or>
          (g' t = Some ?ng \<and> (\<exists>e\<in>set new. state (snd (snd e)) = t \<and> cost (snd (snd e)) = ?ng) \<and>
           (\<forall>k. g t = Some k \<longrightarrow> ?ng < k))"
      "\<forall>t\<in>fst ` set ms. \<exists>k. g' t = Some k \<and> k \<le> ?ng"
      by blast
    have 1: "a_star_expand h cur (sa # ms) (open_set, g, c)
        = Inr (open_set @ new, g', c + length new)"
      using False ih(1) by (simp add: sa Let_def)
    have 2: "length new \<le> length (sa # ms)" using ih(2) by simp
    have 3: "\<forall>e\<in>set new. \<exists>t a. (t, a) \<in> set (sa # ms) \<and> fst e = ?ng + hv t \<and>
          snd (snd e) = Node t (Some cur) (Some a) ?ng \<and> g' t = Some ?ng"
      using ih(3) by auto
    have "\<exists>k. g' s = Some k \<and> k \<le> ?ng"
      using ih(4) [rule_format, of s] k0 by auto
    then have 5: "\<forall>t\<in>fst ` set (sa # ms). \<exists>k. g' t = Some k \<and> k \<le> ?ng"
      using ih(5) sa by auto
    from 1 2 3 ih(4) 5 show ?thesis by blast
  qed
qed

lemma consistent_along:
  assumes cons: "\<forall>s t. valid_state s \<longrightarrow> move_rel s t \<longrightarrow> hv s \<le> hv t + 1"
    and v: "valid_state s" and r: "(move_rel ^^ j) s t"
  shows "hv s \<le> hv t + j"
  using r
proof (induction j arbitrary: t)
  case 0
  then show ?case by simp
next
  case (Suc j)
  then obtain y where y: "(move_rel ^^ j) s y" "move_rel y t" by auto
  have "valid_state y"
    using reachable_valid_solvable [OF relpowp_reachable [OF y(1)] v] by simp
  with cons y(2) have "hv y \<le> hv t + 1" by blast
  with Suc.IH [OF y(1)] show ?case by simp
qed

lemma a_star_frontier:
  assumes inv: "a_star_inv init hv open_set g closed"
    and r: "(move_rel ^^ k) init s" and nc: "s \<notin> closed"
  shows "\<exists>j u e. j \<le> k \<and> (move_rel ^^ (k - j)) u s \<and> (move_rel ^^ j) init u \<and> e \<in> set open_set \<and>
           state (snd (snd e)) = u \<and> cost (snd (snd e)) \<le> j"
  using r nc
proof (induction k arbitrary: s)
  case 0
  then have s: "s = init" by simp
  from inv have g0: "g init = Some 0"
    and A5: "\<forall>s k. g s = Some k \<longrightarrow> s \<notin> closed \<longrightarrow>
        (\<exists>e\<in>set open_set. state (snd (snd e)) = s \<and> cost (snd (snd e)) = k)"
    unfolding a_star_inv_def by blast+
  from A5 g0 0(2) s obtain e where "e \<in> set open_set" "state (snd (snd e)) = init"
    "cost (snd (snd e)) = 0" by blast
  then show ?case
    by (intro exI [of _ 0] exI [of _ init] exI [of _ e]) (simp add: s)
next
  case (Suc k)
  from Suc.prems(1) obtain y where y: "(move_rel ^^ k) init y" "move_rel y s" by auto
  show ?case
  proof (cases "y \<in> closed")
    case True
    from inv have A4: "\<forall>s\<in>closed. s \<noteq> goal_state \<and>
        (\<exists>k. g s = Some k \<and> (\<forall>j. (move_rel ^^ j) init s \<longrightarrow> k \<le> j) \<and>
           (\<forall>t. move_rel s t \<longrightarrow> (\<exists>k'. g t = Some k' \<and> k' \<le> k + 1)))"
      and A5: "\<forall>s k. g s = Some k \<longrightarrow> s \<notin> closed \<longrightarrow>
        (\<exists>e\<in>set open_set. state (snd (snd e)) = s \<and> cost (snd (snd e)) = k)"
      unfolding a_star_inv_def by blast+
    from A4 True obtain ky where ky: "g y = Some ky" "\<forall>j. (move_rel ^^ j) init y \<longrightarrow> ky \<le> j"
      "\<forall>t. move_rel y t \<longrightarrow> (\<exists>k'. g t = Some k' \<and> k' \<le> ky + 1)" by blast
    from ky(3) y(2) obtain k' where k': "g s = Some k'" "k' \<le> ky + 1" by blast
    from ky(2) y(1) have "ky \<le> k" by blast
    with k'(2) have le: "k' \<le> Suc k" by simp
    from A5 k'(1) Suc.prems(2) obtain e where e: "e \<in> set open_set" "state (snd (snd e)) = s"
      "cost (snd (snd e)) = k'" by blast
    show ?thesis
      by (intro exI [of _ "Suc k"] exI [of _ s] exI [of _ e]) (use e le Suc.prems(1) in simp)
  next
    case False
    from Suc.IH [OF y(1) False] obtain j u e where j: "j \<le> k" "(move_rel ^^ (k - j)) u y"
      "(move_rel ^^ j) init u" "e \<in> set open_set" "state (snd (snd e)) = u" "cost (snd (snd e)) \<le> j"
      by blast
    have "(move_rel ^^ Suc (k - j)) u s" using j(2) y(2) by auto
    moreover have "Suc k - j = Suc (k - j)" using j(1) by simp
    ultimately have "(move_rel ^^ (Suc k - j)) u s" by simp
    with j show ?thesis
      by (intro exI [of _ j] exI [of _ u] exI [of _ e]) simp
  qed
qed

lemma a_star_pop_optimal:
  assumes inv: "a_star_inv init hv open_set g closed"
    and cons: "\<forall>s t. valid_state s \<longrightarrow> move_rel s t \<longrightarrow> hv s \<le> hv t + 1"
    and v: "valid_state init"
    and pop: "heappop open_set = Some (e, open_set')"
    and nc: "state (snd (snd e)) \<notin> closed"
    and r: "(move_rel ^^ k) init (state (snd (snd e)))"
  shows "cost (snd (snd e)) \<le> k"
proof -
  let ?s = "state (snd (snd e))"
  from a_star_frontier [OF inv r nc] obtain j u e' where j: "j \<le> k" "(move_rel ^^ (k - j)) u ?s"
    "(move_rel ^^ j) init u" "e' \<in> set open_set" "state (snd (snd e')) = u"
    "cost (snd (snd e')) \<le> j"
    by blast
  have vu: "valid_state u"
    using reachable_valid_solvable [OF relpowp_reachable [OF j(3)] v] by simp
  have hu: "hv u \<le> hv ?s + (k - j)" using cons vu j(2) by (rule consistent_along)
  from inv have A1: "\<forall>e\<in>set open_set. fst e = cost (snd (snd e)) + hv (state (snd (snd e)))"
    unfolding a_star_inv_def by blast
  have "fst e \<le> fst e'" using pop j(4) by (rule heappop_min)
  moreover have "fst e = cost (snd (snd e)) + hv ?s"
    using A1 heappop_Some(1) [OF pop] by blast
  moreover have "fst e' = cost (snd (snd e')) + hv u" using A1 j(4,5) by auto
  ultimately show ?thesis using hu j(1,6) by linarith
qed

lemma a_star_inv_skip:
  assumes inv: "a_star_inv init hv open_set g closed"
    and pop: "heappop open_set = Some (e, open_set')"
    and cl: "state (snd (snd e)) \<in> closed"
  shows "a_star_inv init hv open_set' g closed"
proof -
  have sub: "set open_set' \<subseteq> set open_set" using pop by (rule heappop_Some(2))
  from inv have A1: "\<forall>e\<in>set open_set. node_ok init (snd (snd e)) \<and>
        fst e = cost (snd (snd e)) + hv (state (snd (snd e))) \<and>
        (\<exists>k. g (state (snd (snd e))) = Some k \<and> k \<le> cost (snd (snd e)))"
    and A2: "g init = Some 0"
    and A3: "\<forall>s k. g s = Some k \<longrightarrow> (move_rel ^^ k) init s"
    and A4: "\<forall>s\<in>closed. s \<noteq> goal_state \<and>
        (\<exists>k. g s = Some k \<and> (\<forall>j. (move_rel ^^ j) init s \<longrightarrow> k \<le> j) \<and>
           (\<forall>t. move_rel s t \<longrightarrow> (\<exists>k'. g t = Some k' \<and> k' \<le> k + 1)))"
    and A5: "\<forall>s k. g s = Some k \<longrightarrow> s \<notin> closed \<longrightarrow>
        (\<exists>e\<in>set open_set. state (snd (snd e)) = s \<and> cost (snd (snd e)) = k)"
    unfolding a_star_inv_def by blast+
  have G1: "\<forall>e\<in>set open_set'. node_ok init (snd (snd e)) \<and>
        fst e = cost (snd (snd e)) + hv (state (snd (snd e))) \<and>
        (\<exists>k. g (state (snd (snd e))) = Some k \<and> k \<le> cost (snd (snd e)))"
    using A1 sub by blast
  have G5: "\<forall>s k. g s = Some k \<longrightarrow> s \<notin> closed \<longrightarrow>
        (\<exists>e\<in>set open_set'. state (snd (snd e)) = s \<and> cost (snd (snd e)) = k)"
  proof (intro allI impI)
    fix s k assume "g s = Some k" "s \<notin> closed"
    with A5 obtain e0 where e0: "e0 \<in> set open_set" "state (snd (snd e0)) = s"
      "cost (snd (snd e0)) = k" by blast
    with cl \<open>s \<notin> closed\<close> have "e0 \<noteq> e" by auto
    with pop e0(1) have "e0 \<in> set open_set'" by (rule heappop_rest)
    with e0 show "\<exists>e\<in>set open_set'. state (snd (snd e)) = s \<and> cost (snd (snd e)) = k" by blast
  qed
  show ?thesis
    unfolding a_star_inv_def by (intro conjI G1 A2 A3 A4 G5)
qed

lemma a_star_inv_expand:
  assumes inv: "a_star_inv init hv open_set g closed"
    and cons: "\<forall>s t. valid_state s \<longrightarrow> move_rel s t \<longrightarrow> hv s \<le> hv t + 1"
    and v: "valid_state init"
    and pop: "heappop open_set = Some (e, open_set')"
    and cur: "snd (snd e) = cur"
    and nc: "state cur \<notin> closed"
    and ng: "state cur \<noteq> goal_state"
    and moves: "get_possible_moves (state cur) = Inr ms"
    and new_entries: "\<forall>e\<in>set new. \<exists>t a. (t, a) \<in> set ms \<and> fst e = cost cur + 1 + hv t \<and>
        snd (snd e) = Node t (Some cur) (Some a) (cost cur + 1) \<and> g' t = Some (cost cur + 1)"
    and changes: "\<forall>t. g' t = g t \<or>
        (g' t = Some (cost cur + 1) \<and>
         (\<exists>e\<in>set new. state (snd (snd e)) = t \<and> cost (snd (snd e)) = cost cur + 1) \<and>
         (\<forall>k. g t = Some k \<longrightarrow> cost cur + 1 < k))"
    and succs: "\<forall>t\<in>fst ` set ms. \<exists>k. g' t = Some k \<and> k \<le> cost cur + 1"
  shows "a_star_inv init hv (open_set' @ new) g' (insert (state cur) closed)"
proof -
  let ?s = "state cur"
  let ?ng = "cost cur + 1"
  have sub: "set open_set' \<subseteq> set open_set" using pop by (rule heappop_Some(2))
  have e_in: "e \<in> set open_set" using pop by (rule heappop_Some(1))
  from inv have A1: "\<forall>e\<in>set open_set. node_ok init (snd (snd e)) \<and>
        fst e = cost (snd (snd e)) + hv (state (snd (snd e))) \<and>
        (\<exists>k. g (state (snd (snd e))) = Some k \<and> k \<le> cost (snd (snd e)))"
    and A2: "g init = Some 0"
    and A3: "\<forall>s k. g s = Some k \<longrightarrow> (move_rel ^^ k) init s"
    and A4: "\<forall>s\<in>closed. s \<noteq> goal_state \<and>
        (\<exists>k. g s = Some k \<and> (\<forall>j. (move_rel ^^ j) init s \<longrightarrow> k \<le> j) \<and>
           (\<forall>t. move_rel s t \<longrightarrow> (\<exists>k'. g t = Some k' \<and> k' \<le> k + 1)))"
    and A5: "\<forall>s k. g s = Some k \<longrightarrow> s \<notin> closed \<longrightarrow>
        (\<exists>e\<in>set open_set. state (snd (snd e)) = s \<and> cost (snd (snd e)) = k)"
    unfolding a_star_inv_def by blast+
  have cur_ok: "node_ok init cur" using A1 e_in cur by auto
  obtain kg where kg: "g ?s = Some kg" "kg \<le> cost cur" using A1 e_in cur by auto
  have opt: "cost cur \<le> k" if "(move_rel ^^ k) init ?s" for k
    using a_star_pop_optimal [OF inv cons v pop] nc that cur by simp
  have "cost cur \<le> kg" using opt A3 kg(1) by blast
  with kg have gs: "g ?s = Some (cost cur)" by simp
  have reach_cur: "(move_rel ^^ cost cur) init ?s" using cur_ok by (rule node_ok_relpowp)
  have succ_move: "move_rel ?s t" if "(t, a) \<in> set ms" for t a
    using that moves by (auto simp: move_rel_iff_moves)
  have reach_succ: "(move_rel ^^ ?ng) init t" if "(t, a) \<in> set ms" for t a
    using reach_cur succ_move [OF that] by auto
  have mono: "\<exists>k'. g' t = Some k' \<and> k' \<le> k" if "g t = Some k" for t k
    using changes [rule_format, of t] that by auto
  have G3: "\<forall>s k. g' s = Some k \<longrightarrow> (move_rel ^^ k) init s"
  proof (intro allI impI)
    fix s k assume gk: "g' s = Some k"
    from changes [rule_format, of s]
    show "(move_rel ^^ k) init s"
    proof
      assume "g' s = g s"
      with gk A3 show ?thesis by simp
    next
      assume c: "g' s = Some ?ng \<and>
         (\<exists>e\<in>set new. state (snd (snd e)) = s \<and> cost (snd (snd e)) = ?ng) \<and>
         (\<forall>k. g s = Some k \<longrightarrow> ?ng < k)"
      then obtain e0 where e0: "e0 \<in> set new" "state (snd (snd e0)) = s" by blast
      with new_entries obtain t a where "(t, a) \<in> set ms"
        "snd (snd e0) = Node t (Some cur) (Some a) ?ng" by blast
      with e0(2) have "(s, a) \<in> set ms" by simp
      from reach_succ [OF this] c gk show ?thesis by simp
    qed
  qed
  have G1: "\<forall>e\<in>set (open_set' @ new). node_ok init (snd (snd e)) \<and>
        fst e = cost (snd (snd e)) + hv (state (snd (snd e))) \<and>
        (\<exists>k. g' (state (snd (snd e))) = Some k \<and> k \<le> cost (snd (snd e)))"
  proof
    fix e0 assume "e0 \<in> set (open_set' @ new)"
    then consider "e0 \<in> set open_set" | "e0 \<in> set new" using sub by auto
    then show "node_ok init (snd (snd e0)) \<and>
        fst e0 = cost (snd (snd e0)) + hv (state (snd (snd e0))) \<and>
        (\<exists>k. g' (state (snd (snd e0))) = Some k \<and> k \<le> cost (snd (snd e0)))"
    proof cases
      case 1
      with A1 obtain k where "node_ok init (snd (snd e0))"
        "fst e0 = cost (snd (snd e0)) + hv (state (snd (snd e0)))"
        "g (state (snd (snd e0))) = Some k" "k \<le> cost (snd (snd e0))" by blast
      with mono [OF this(3)] show ?thesis by auto
    next
      case 2
      with new_entries obtain t a where ta: "(t, a) \<in> set ms" "fst e0 = ?ng + hv t"
        "snd (snd e0) = Node t (Some cur) (Some a) ?ng" "g' t = Some ?ng" by blast
      have "is_move ?s (t, a)" using ta(1) moves by (simp add: is_move_def)
      with cur_ok have "node_ok init (Node t (Some cur) (Some a) ?ng)"
        by (rule node_ok.child)
      with ta show ?thesis by simp
    qed
  qed
  have G2: "g' init = Some 0"
    using changes [rule_format, of init] A2 by auto
  have G4: "\<forall>s\<in>insert ?s closed. s \<noteq> goal_state \<and>
        (\<exists>k. g' s = Some k \<and> (\<forall>j. (move_rel ^^ j) init s \<longrightarrow> k \<le> j) \<and>
           (\<forall>t. move_rel s t \<longrightarrow> (\<exists>k'. g' t = Some k' \<and> k' \<le> k + 1)))"
  proof
    fix s assume "s \<in> insert ?s closed"
    then consider "s = ?s" | "s \<in> closed" by auto
    then show "s \<noteq> goal_state \<and>
        (\<exists>k. g' s = Some k \<and> (\<forall>j. (move_rel ^^ j) init s \<longrightarrow> k \<le> j) \<and>
           (\<forall>t. move_rel s t \<longrightarrow> (\<exists>k'. g' t = Some k' \<and> k' \<le> k + 1)))"
    proof cases
      case 1
      have g's: "g' ?s = Some (cost cur)"
        using changes [rule_format, of ?s] gs by auto
      have "\<exists>k'. g' t = Some k' \<and> k' \<le> cost cur + 1" if "move_rel ?s t" for t
      proof -
        from that moves obtain m where "(t, m) \<in> set ms" by (auto simp: move_rel_iff_moves)
        then have "t \<in> fst ` set ms" by force
        with succs show ?thesis by blast
      qed
      with 1 ng g's opt show ?thesis by auto
    next
      case 2
      with A4 obtain k where k: "s \<noteq> goal_state" "g s = Some k"
        "\<forall>j. (move_rel ^^ j) init s \<longrightarrow> k \<le> j"
        "\<forall>t. move_rel s t \<longrightarrow> (\<exists>k'. g t = Some k' \<and> k' \<le> k + 1)" by blast
      have g's: "g' s = Some k"
      proof -
        from mono [OF k(2)] obtain k' where k': "g' s = Some k'" "k' \<le> k" by blast
        with G3 k(3) have "k \<le> k'" by blast
        with k' show ?thesis by simp
      qed
      have "\<exists>k'. g' t = Some k' \<and> k' \<le> k + 1" if "move_rel s t" for t
      proof -
        from k(4) that obtain k1 where "g t = Some k1" "k1 \<le> k + 1" by blast
        with mono [OF this(1)] show ?thesis by auto
      qed
      with k(1,3) g's show ?thesis by auto
    qed
  qed
  have G5: "\<forall>s k. g' s = Some k \<longrightarrow> s \<notin> insert ?s closed \<longrightarrow>
        (\<exists>e\<in>set (open_set' @ new). state (snd (snd e)) = s \<and> cost (snd (snd e)) = k)"
  proof (intro allI impI)
    fix s k assume gk: "g' s = Some k" and ns: "s \<notin> insert ?s closed"
    from changes [rule_format, of s]
    show "\<exists>e\<in>set (open_set' @ new). state (snd (snd e)) = s \<and> cost (snd (snd e)) = k"
    proof
      assume "g' s = g s"
      with gk have "g s = Some k" by simp
      moreover have "s \<notin> closed" using ns by simp
      ultimately have "\<exists>e\<in>set open_set. state (snd (snd e)) = s \<and> cost (snd (snd e)) = k"
        using A5 by blast
      then obtain e0 where e0: "e0 \<in> set open_set" "state (snd (snd e0)) = s"
        "cost (snd (snd e0)) = k" by blast
      with ns cur have "e0 \<noteq> e" by auto
      with pop e0(1) have "e0 \<in> set open_set'" by (rule heappop_rest)
      with e0 show ?thesis by auto
    next
      assume "g' s = Some ?ng \<and>
         (\<exists>e\<in>set new. state (snd (snd e)) = s \<and> cost (snd (snd e)) = ?ng) \<and>
         (\<forall>k. g s = Some k \<longrightarrow> ?ng < k)"
      with gk show ?thesis by auto
    qed
  qed
  show ?thesis
    unfolding a_star_inv_def by (intro conjI G1 G2 G3 G4 G5)
qed

lemma successors_spec_length: "length (successors_spec s) \<le> 4"
  by (simp add: successors_spec_def Let_def)

lemma a_star_inv_init: "a_star_inv init hv [(hv init, 0, Node init None None 0)] [init \<mapsto> 0] {}"
  unfolding a_star_inv_def
  by (auto simp: node_ok.root split: if_splits)

lemma a_star_inv_empty:
  assumes inv: "a_star_inv init hv [] g closed" and r: "reachable init s"
  shows "s \<in> closed \<and> s \<noteq> goal_state"
proof -
  from inv have A2: "g init = Some 0"
    and A4: "\<forall>s\<in>closed. s \<noteq> goal_state \<and>
        (\<exists>k. g s = Some k \<and> (\<forall>j. (move_rel ^^ j) init s \<longrightarrow> k \<le> j) \<and>
           (\<forall>t. move_rel s t \<longrightarrow> (\<exists>k'. g t = Some k' \<and> k' \<le> k + 1)))"
    and A5: "\<forall>s k. g s = Some k \<longrightarrow> s \<in> closed"
    unfolding a_star_inv_def by auto
  from r have "s \<in> closed"
    unfolding reachable_def
  proof (induction rule: rtranclp_induct)
    case base
    show ?case using A2 A5 by blast
  next
    case (step y z)
    with A4 obtain k' where "g z = Some k'" by blast
    with A5 show ?case by blast
  qed
  with A4 show ?thesis by blast
qed

lemma a_star_loop_total:
  assumes v: "valid_state init" and r: "reachable init goal_state"
    and hspec: "\<forall>s. valid_state s \<longrightarrow> h s = Inr (hv s)"
    and cons: "\<forall>s t. valid_state s \<longrightarrow> move_rel s t \<longrightarrow> hv s \<le> hv t + 1"
    and inv: "a_star_inv init hv open_set g closed"
  shows "\<exists>n ne' mq'. a_star_loop h open_set g closed ne mq c
             = Some (Inr (Some (get_path n), ne', mq')) \<and>
           node_ok init n \<and> state n = goal_state \<and>
           (\<forall>k. (move_rel ^^ k) init goal_state \<longrightarrow> cost n \<le> k)"
  using inv
proof (induction "5 * card ({s. valid_state s} - closed) + length open_set"
    arbitrary: open_set g closed ne mq c rule: less_induct)
  case less
  note inv = less.prems
  show ?case
  proof (cases "heappop open_set")
    case None
    then have "open_set = []" by (simp add: heappop_None)
    with inv r a_star_inv_empty [of init hv g closed goal_state] show ?thesis by simp
  next
    case (Some popped)
    obtain fc nid cur open' where popped: "popped = ((fc, nid, cur), open')"
      by (cases popped) auto
    note pop = Some [unfolded popped]
    have len: "length open_set = Suc (length open')" using pop by (rule heappop_Some(4))
    have e_in: "(fc, nid, cur) \<in> set open_set" using pop by (rule heappop_Some(1))
    from inv have A1: "\<forall>e\<in>set open_set. node_ok init (snd (snd e))"
      unfolding a_star_inv_def by blast
    have cur_ok: "node_ok init cur" using A1 e_in by auto
    show ?thesis
    proof (cases "state cur \<in> closed")
      case True
      have inv': "a_star_inv init hv open' g closed"
        using inv pop by (rule a_star_inv_skip) (use True in simp)
      have less': "5 * card ({s. valid_state s} - closed) + length open'
          < 5 * card ({s. valid_state s} - closed) + length open_set"
        using len by simp
      have "a_star_loop h open_set g closed ne mq c
          = a_star_loop h open' g closed (ne + 1) (max mq (length open_set)) c"
        by (subst a_star_loop.simps) (simp add: pop True Let_def)
      with less.hyps [OF less' inv', of "ne + 1" "max mq (length open_set)" c] show ?thesis
        by simp
    next
      case nc: False
      have opt: "cost cur \<le> k" if "(move_rel ^^ k) init (state cur)" for k
        using a_star_pop_optimal [OF inv cons v pop] nc that by simp
      show ?thesis
      proof (cases "is_goal (state cur)")
        case True
        have "a_star_loop h open_set g closed ne mq c
            = Some (Inr (Some (get_path cur), ne + 1, max mq (length open_set)))"
          by (subst a_star_loop.simps) (simp add: pop nc True Let_def)
        with True cur_ok opt show ?thesis by (auto simp: is_goal_def)
      next
        case ngoal: False
        have vc: "valid_state (state cur)"
          using reachable_valid_solvable [OF relpowp_reachable [OF node_ok_relpowp [OF cur_ok]] v]
          by simp
        let ?ms = "successors_spec (state cur)"
        have ms: "get_possible_moves (state cur) = Inr ?ms"
          using vc by (rule get_possible_moves_valid)
        have "\<forall>sa\<in>set ?ms. h (fst sa) = Inr (hv (fst sa))"
        proof
          fix sa assume "sa \<in> set ?ms"
          then have "(fst sa, snd sa) \<in> set ?ms" by simp
          with ms have "move_rel (state cur) (fst sa)" unfolding move_rel_iff_moves by blast
          with vc have "valid_state (fst sa)" by (rule move_rel_valid)
          with hspec show "h (fst sa) = Inr (hv (fst sa))" by blast
        qed
        from a_star_expand_props [OF this, of cur open' g c] obtain new g' where
          ex: "a_star_expand h cur ?ms (open', g, c) = Inr (open' @ new, g', c + length new)"
          and ln: "length new \<le> length ?ms"
          and p3: "\<forall>e\<in>set new. \<exists>t a. (t, a) \<in> set ?ms \<and> fst e = cost cur + 1 + hv t \<and>
              snd (snd e) = Node t (Some cur) (Some a) (cost cur + 1) \<and> g' t = Some (cost cur + 1)"
          and p4: "\<forall>t. g' t = g t \<or>
              (g' t = Some (cost cur + 1) \<and>
               (\<exists>e\<in>set new. state (snd (snd e)) = t \<and> cost (snd (snd e)) = cost cur + 1) \<and>
               (\<forall>k. g t = Some k \<longrightarrow> cost cur + 1 < k))"
          and p5: "\<forall>t\<in>fst ` set ?ms. \<exists>k. g' t = Some k \<and> k \<le> cost cur + 1"
          by blast
        have inv': "a_star_inv init hv (open' @ new) g' (insert (state cur) closed)"
          using inv cons v pop _ nc _ ms p3 p4 p5
          by (rule a_star_inv_expand) (use ngoal in \<open>simp_all add: is_goal_def\<close>)
        have "state cur \<in> {s. valid_state s} - closed" using vc nc by simp
        then have "card ({s. valid_state s} - insert (state cur) closed)
            < card ({s. valid_state s} - closed)"
          using finite_valid_states
          by (intro psubset_card_mono) auto
        moreover have "length new \<le> 4" using ln successors_spec_length [of "state cur"] by simp
        ultimately have less':
          "5 * card ({s. valid_state s} - insert (state cur) closed) + length (open' @ new)
            < 5 * card ({s. valid_state s} - closed) + length open_set"
          using len by simp
        have "a_star_loop h open_set g closed ne mq c
            = a_star_loop h (open' @ new) g' (insert (state cur) closed) (ne + 1)
                (max mq (length open_set)) (c + length new)"
          by (subst a_star_loop.simps) (simp add: pop nc ngoal ms ex Let_def)
        with less.hyps [OF less' inv', of "ne + 1" "max mq (length open_set)" "c + length new"]
        show ?thesis by simp
      qed
    qed
  qed
qed

lemma a_star_shortest:
  assumes v: "valid_state init" and s: "is_solvable init" and r: "reachable init goal_state"
    and hspec: "\<forall>s. valid_state s \<longrightarrow> h s = Inr (hv s)"
    and cons: "\<forall>s t. valid_state s \<longrightarrow> move_rel s t \<longrightarrow> hv s \<le> hv t + 1"
  shows "\<exists>p ne mq. a_star h init = Some (Inr (Some p, ne, mq)) \<and> solution_path init p \<and>
           length p - 1 = min_moves init"
proof -
  from a_star_loop_total [OF v r hspec cons a_star_inv_init, of 0 0 0] obtain n ne mq
    where run: "a_star_loop h [(hv init, 0, Node init None None 0)] [init \<mapsto> 0] {} 0 0 0
        = Some (Inr (Some (get_path n), ne, mq))"
      and n: "node_ok init n" "state n = goal_state"
      and opt: "\<forall>k. (move_rel ^^ k) init goal_state \<longrightarrow> cost n \<le> k"
    by blast
  have reach: "(move_rel ^^ cost n) init goal_state"
    using node_ok_relpowp [OF n(1)] n(2) by simp
  have "min_moves init = cost n"
    unfolding min_moves_def using reach opt by (intro Least_equality) simp_all
  moreover have "solution_path init (get_path n)"
    using n by (simp add: node_ok_goal_solution is_goal_def)
  moreover have "length (get_path n) = cost n + 1" using n(1) by (rule node_ok_length)
  moreover have "a_star h init = Some (Inr (Some (get_path n), ne, mq))"
    using run s hspec v by (simp add: a_star_def)
  ultimately show ?thesis by simp
qed

lemma misplaced_spec:
  "\<forall>s. valid_state s \<longrightarrow> misplaced_tiles_heuristic s = Inr (misplaced_value s)"
  by (simp add: misplaced_tiles_heuristic_valid misplaced_value_def)

lemma manhattan_spec:
  "\<forall>s. valid_state s \<longrightarrow> manhattan_distance_heuristic s = Inr (manhattan_value s)"
  by (simp add: manhattan_distance_heuristic_valid manhattan_value_def)

lemma misplaced_consistent:
  "\<forall>s t. valid_state s \<longrightarrow> move_rel s t \<longrightarrow> misplaced_value s \<le> misplaced_value t + 1"
proof (intro allI impI)
  fix s t assume "valid_state s" "move_rel s t"
  then obtain m where "is_move s (t, m)" by (auto simp: move_rel_def)
  from misplaced_step [OF \<open>valid_state s\<close> this]
  show "misplaced_value s \<le> misplaced_value t + 1"
    unfolding misplaced_value_def by linarith
qed

lemma manhattan_consistent:
  "\<forall>s t. valid_state s \<longrightarrow> move_rel s t \<longrightarrow> manhattan_value s \<le> manhattan_value t + 1"
proof (intro allI impI)
  fix s t assume "valid_state s" "move_rel s t"
  then obtain m where "is_move s (t, m)" by (auto simp: move_rel_def)
  from manhattan_step [OF \<open>valid_state s\<close> this]
  show "manhattan_value s \<le> manhattan_value t + 1"
    unfolding manhattan_value_def by linarith
qed

text \<open>
  Claim C3. For every solvable initial state (a well-formed state with an even number of
  inversions) and for each of the two heuristics, A* search returns a path, and the number
  of moves of that path equals the number of moves of the path that breadth-first search
  returns for the same initial state.
\<close>

theorem a_star_matches_bfs:
  assumes "valid_state init" "even (inversions init)"
  shows "\<exists>pb neb mqb. bfs init = Some (Inr (Some pb, neb, mqb)) \<and>
           (\<exists>p ne mq. a_star misplaced_tiles_heuristic init = Some (Inr (Some p, ne, mq)) \<and>
              length p - 1 = length pb - 1) \<and>
           (\<exists>p ne mq. a_star manhattan_distance_heuristic init = Some (Inr (Some p, ne, mq)) \<and>
              length p - 1 = length pb - 1)"
proof -
  have s: "is_solvable init" using assms(2) by (simp add: is_solvable_even_inversions)
  have r: "reachable init goal_state" using assms(1) s by (rule solvable_reachable)
  from bfs_shortest [OF assms(1) s r] obtain pb neb mqb where
    b: "bfs init = Some (Inr (Some pb, neb, mqb))" "length pb - 1 = min_moves init"
    by blast
  from a_star_shortest [OF assms(1) s r misplaced_spec misplaced_consistent] obtain p1 ne1 mq1
    where 1: "a_star misplaced_tiles_heuristic init = Some (Inr (Some p1, ne1, mq1))"
      "length p1 - 1 = min_moves init"
    by blast
  from a_star_shortest [OF assms(1) s r manhattan_spec manhattan_consistent] obtain p2 ne2 mq2
    where 2: "a_star manhattan_distance_heuristic init = Some (Inr (Some p2, ne2, mq2))"
      "length p2 - 1 = min_moves init"
    by blast
  from b 1 2 show ?thesis by simp
qed

theorem a_star_matches_bfs_witness:
  "valid_state [1, 2, 0, 4, 5, 3, 7, 8, 6] \<and> even (inversions [1, 2, 0, 4, 5, 3, 7, 8, 6]) \<and>
   (\<exists>pb neb mqb. bfs [1, 2, 0, 4, 5, 3, 7, 8, 6] = Some (Inr (Some pb, neb, mqb)) \<and>
      (\<exists>p ne mq. a_star misplaced_tiles_heuristic [1, 2, 0, 4, 5, 3, 7, 8, 6]
                   = Some (Inr (Some p, ne, mq)) \<and> length p - 1 = length pb - 1) \<and>
      (\<exists>p ne mq. a_star manhattan_distance_heuristic [1, 2, 0, 4, 5, 3, 7, 8, 6]
                   = Some (Inr (Some p, ne, mq)) \<and> length p - 1 = length pb - 1))"
proof -
  have v: "valid_state [1, 2, 0, 4, 5, 3, 7, 8, 6]" by (simp add: valid_state_def)
  have "is_solvable [1, 2, 0, 4, 5, 3, 7, 8, 6]"
    by (simp add: is_solvable_inv_count non_blank_tiles_def)
  then have e: "even (inversions [1, 2, 0, 4, 5, 3, 7, 8, 6])"
    by (simp add: is_solvable_even_inversions)
  from a_star_matches_bfs [OF v e] v e show ?thesis by blast
qed

end
